theory Spec2Isabelle
  imports Complex_Main "HOL-Library.Sublist"
begin

section \<open>Strings: whitespace, \<open>str.split()\<close> and \<open>str.strip()\<close>\<close>

text \<open>
  A text is a \<open>string\<close> (a list of 8-bit characters). The whitespace that Python's
  \<open>str.split()\<close> and \<open>str.strip()\<close> recognise in ASCII text is TAB, LF, VT, FF, CR,
  the separators FS, GS, RS, US and the space. Whitespace beyond ASCII (NEL, NBSP, the
  Unicode spaces) is outside this model: a non-ASCII character is a run of bytes that are
  no whitespace.
\<close>

definition isspace :: "char \<Rightarrow> bool" where
  "isspace ch \<longleftrightarrow>
     ch \<in> set [CHR 0x09, CHR 0x0A, CHR 0x0B, CHR 0x0C, CHR 0x0D,
               CHR 0x1C, CHR 0x1D, CHR 0x1E, CHR 0x1F, CHR '' '']"

text \<open>
  \<open>text.split()\<close> scans the text once: whitespace ends the token being collected (if
  any), every other character extends it. \<open>cur\<close> is the token collected so far.
\<close>

fun split_from :: "string \<Rightarrow> string \<Rightarrow> string list" where
  "split_from cur [] = (if cur = [] then [] else [cur])"
| "split_from cur (ch # cs) =
     (if isspace ch
      then (if cur = [] then split_from [] cs else cur # split_from [] cs)
      else split_from (cur @ [ch]) cs)"

definition py_split :: "string \<Rightarrow> string list" where
  "py_split text = split_from [] text"

definition py_strip :: "string \<Rightarrow> string" where
  "py_strip s = rev (dropWhile isspace (rev (dropWhile isspace s)))"

text \<open>A token is what \<open>split()\<close> yields: not empty and free of whitespace.\<close>

definition is_token :: "string \<Rightarrow> bool" where
  "is_token w \<longleftrightarrow> w \<noteq> [] \<and> (\<forall>ch \<in> set w. \<not> isspace ch)"

section \<open>The PDF script (\<open>tmp/pdfs/generate_tidum_app_summary_pdf.py\<close>)\<close>

text \<open>
  \<open>pdfmetrics.stringWidth(text, fontName, fontSize)\<close> belongs to the PDF library; it is
  a parameter of the model. Python floats are read as real numbers: the properties
  below depend on the comparisons the code makes, not on rounding.
\<close>

type_synonym metrics = "string \<Rightarrow> string \<Rightarrow> real \<Rightarrow> real"

subsection \<open>\<open>wrap_text\<close>\<close>

text \<open>
  The \<open>for word in words[1:]\<close> loop, with the loop variables \<open>lines\<close> and \<open>current\<close>;
  when the words are used up, \<open>lines.append(current)\<close> and \<open>return lines\<close>.
\<close>

fun wrap_loop ::
  "metrics \<Rightarrow> string \<Rightarrow> real \<Rightarrow> real \<Rightarrow> string list \<Rightarrow> string \<Rightarrow> string list \<Rightarrow> string list"
where
  "wrap_loop sw font_name font_size width lines current [] = lines @ [current]"
| "wrap_loop sw font_name font_size width lines current (word # rest) =
     (let candidate = current @ '' '' @ word in
      if sw candidate font_name font_size \<le> width
      then wrap_loop sw font_name font_size width lines candidate rest
      else wrap_loop sw font_name font_size width (lines @ [current]) word rest)"

definition wrap_text :: "metrics \<Rightarrow> string \<Rightarrow> string \<Rightarrow> real \<Rightarrow> real \<Rightarrow> string list" where
  "wrap_text sw text font_name font_size width =
     (case py_split text of
        [] \<Rightarrow> ['''']
      | w # ws \<Rightarrow> wrap_loop sw font_name font_size width [] w ws)"

subsection \<open>The canvas\<close>

text \<open>
  A canvas records the calls made on it, in order; \<open>c.save()\<close> writes the canvas to the
  file it was created for. The file system maps a path to the canvas last saved there.
\<close>

datatype draw_op =
    SetTitle string
  | SetFillColor string
  | SetStrokeColor string
  | SetFont string real
  | SetLineWidth real
  | DrawString real real string
  | Line real real real real

record canvas =
  filename :: string
  pagesize :: "real \<times> real"
  ops :: "draw_op list"

type_synonym filesystem = "string \<rightharpoonup> canvas"

definition new_canvas :: "string \<Rightarrow> real \<times> real \<Rightarrow> canvas" where
  "new_canvas path pgsize = \<lparr>filename = path, pagesize = pgsize, ops = []\<rparr>"

definition emit :: "draw_op \<Rightarrow> canvas \<Rightarrow> canvas" where
  "emit op c = c\<lparr>ops := ops c @ [op]\<rparr>"

definition save :: "canvas \<Rightarrow> filesystem \<Rightarrow> filesystem" where
  "save c fs = fs(filename c \<mapsto> c)"

subsection \<open>\<open>draw_paragraph\<close> and \<open>draw_bullet\<close>\<close>

text \<open>The loop \<open>for line in lines: c.drawString(x, y, line); y -= leading\<close>.\<close>

fun draw_lines :: "canvas \<Rightarrow> real \<Rightarrow> real \<Rightarrow> real \<Rightarrow> string list \<Rightarrow> canvas \<times> real" where
  "draw_lines c x y leading [] = (c, y)"
| "draw_lines c x y leading (line # rest) =
     draw_lines (emit (DrawString x y line) c) x (y - leading) leading rest"

definition draw_paragraph ::
  "metrics \<Rightarrow> canvas \<Rightarrow> string \<Rightarrow> real \<Rightarrow> real \<Rightarrow> real \<Rightarrow> string \<Rightarrow> real \<Rightarrow> real \<Rightarrow> canvas \<times> real"
where
  "draw_paragraph sw c text x y width font_name font_size leading =
     (let lines = wrap_text sw text font_name font_size width;
          c1 = emit (SetFont font_name font_size) c
      in draw_lines c1 x y leading lines)"

definition draw_bullet ::
  "metrics \<Rightarrow> canvas \<Rightarrow> string \<Rightarrow> real \<Rightarrow> real \<Rightarrow> real \<Rightarrow> string \<Rightarrow> real \<Rightarrow> real \<Rightarrow> canvas \<times> real"
where
  "draw_bullet sw c text x y width font_name font_size leading =
     (let bullet = ''- '';
          bullet_width = sw bullet font_name font_size;
          wrapped = wrap_text sw text font_name font_size (width - bullet_width);
          c1 = emit (SetFont font_name font_size) c
      in case wrapped of
           [] \<Rightarrow> (c1, y)
         | first # rest \<Rightarrow>
             (let c2 = emit (DrawString x y bullet) c1;
                  c3 = emit (DrawString (x + bullet_width) y first) c2
              in draw_lines c3 (x + bullet_width) (y - leading) leading rest))"

subsection \<open>\<open>build_single_page_pdf\<close>\<close>

text \<open>
  The page geometry, the title and the sections are constants of the function; the
  model takes them as a record, so that the loops can be stated for any content, and
  \<open>tidum_doc\<close> below holds the values of the source. A section is
  \<open>(section_title, lines, as_bullets)\<close>.
\<close>

type_synonym pdf_section = "string \<times> string list \<times> bool"

record doc =
  page_width :: real
  page_height :: real
  margin :: real
  doc_title :: string
  sections :: "pdf_section list"

definition content_width :: "doc \<Rightarrow> real" where
  "content_width d = page_width d - (margin d * 2)"

text \<open>
  The local variables of \<open>build_single_page_pdf\<close> that the scale loop assigns: \<open>c\<close>,
  \<open>y\<close>, the seven scaled sizes and \<open>overflow\<close>. They live across the passes of
  \<open>for scale in ...\<close>, so every statement of a pass is a function from the values it
  finds to the values it leaves.
\<close>

record locals =
  cur_canvas :: canvas
  cur_y :: real
  title_size :: real
  heading_size :: real
  body_size :: real
  title_leading :: real
  heading_leading :: real
  body_leading :: real
  section_gap :: real
  cur_overflow :: bool

text \<open>
  Before the first pass the variables are unbound. The model starts them at the
  values below; \<open>scale_attempt\<close> is shown further down to give the same result
  whatever values it starts from.
\<close>

definition entry_locals :: locals where
  "entry_locals =
     \<lparr>cur_canvas = new_canvas [] (0, 0), cur_y = 0, title_size = 0, heading_size = 0,
      body_size = 0, title_leading = 0, heading_leading = 0, body_leading = 0,
      section_gap = 0, cur_overflow = False\<rparr>"

text \<open>
  The pass from \<open>c = canvas.Canvas(...)\<close> to \<open>overflow = False\<close>, statement by
  statement: a new canvas, the cursor at the top margin, the scaled sizes, the title
  and the rule under it.
\<close>

definition draw_header :: "doc \<Rightarrow> string \<Rightarrow> real \<Rightarrow> locals \<Rightarrow> locals" where
  "draw_header d output_path scale st0 =
     (let st = st0\<lparr>cur_canvas := new_canvas output_path (page_width d, page_height d)\<rparr>;
          st = st\<lparr>cur_y := page_height d - margin d\<rparr>;
          st = st\<lparr>title_size := 24 * scale\<rparr>;
          st = st\<lparr>heading_size := 13.5 * scale\<rparr>;
          st = st\<lparr>body_size := 11.0 * scale\<rparr>;
          st = st\<lparr>title_leading := 28 * scale\<rparr>;
          st = st\<lparr>heading_leading := 17 * scale\<rparr>;
          st = st\<lparr>body_leading := 13.6 * scale\<rparr>;
          st = st\<lparr>section_gap := 8 * scale\<rparr>;
          st = st\<lparr>cur_canvas := emit (SetTitle ''Tidum App Summary'') (cur_canvas st)\<rparr>;
          st = st\<lparr>cur_canvas := emit (SetFillColor ''#132031'') (cur_canvas st)\<rparr>;
          st = st\<lparr>cur_canvas :=
                 emit (SetFont ''Helvetica-Bold'' (title_size st)) (cur_canvas st)\<rparr>;
          st = st\<lparr>cur_canvas :=
                 emit (DrawString (margin d) (cur_y st) (doc_title d)) (cur_canvas st)\<rparr>;
          st = st\<lparr>cur_y := cur_y st - title_leading st\<rparr>;
          st = st\<lparr>cur_canvas := emit (SetStrokeColor ''#D8DEE9'') (cur_canvas st)\<rparr>;
          st = st\<lparr>cur_canvas := emit (SetLineWidth 1) (cur_canvas st)\<rparr>;
          st = st\<lparr>cur_canvas :=
                 emit (Line (margin d) (cur_y st + 4) (page_width d - margin d) (cur_y st + 4))
                   (cur_canvas st)\<rparr>;
          st = st\<lparr>cur_y := cur_y st - 8 * scale\<rparr>;
          st = st\<lparr>cur_y := cur_y st - 1 * scale\<rparr>;
          st = st\<lparr>cur_overflow := False\<rparr>
      in st)"

text \<open>
  The loop \<open>for line in lines\<close> over the runs of one section: \<open>y = draw_bullet(c, ...)\<close>
  or \<open>y = draw_paragraph(c, ...)\<close>, which draws on \<open>c\<close> and gives the new \<open>y\<close>.
\<close>

fun draw_runs :: "metrics \<Rightarrow> doc \<Rightarrow> bool \<Rightarrow> locals \<Rightarrow> string list \<Rightarrow> locals" where
  "draw_runs sw d as_bullets st [] = st"
| "draw_runs sw d as_bullets st (line # rest) =
     (let (c', y') =
        (if as_bullets
         then draw_bullet sw (cur_canvas st) line (margin d) (cur_y st) (content_width d)
                ''Helvetica'' (body_size st) (body_leading st)
         else draw_paragraph sw (cur_canvas st) line (margin d) (cur_y st) (content_width d)
                ''Helvetica'' (body_size st) (body_leading st))
      in draw_runs sw d as_bullets (st\<lparr>cur_canvas := c', cur_y := y'\<rparr>) rest)"

text \<open>
  One pass of the body of \<open>for section_title, lines, as_bullets in sections\<close>, up to
  \<open>y -= section_gap\<close>.
\<close>

definition draw_section :: "metrics \<Rightarrow> doc \<Rightarrow> locals \<Rightarrow> pdf_section \<Rightarrow> locals" where
  "draw_section sw d st0 sec =
     (case sec of (section_title, lines, as_bullets) \<Rightarrow>
        (let st = st0\<lparr>cur_canvas := emit (SetFillColor ''#163B5A'') (cur_canvas st0)\<rparr>;
             st = st\<lparr>cur_canvas :=
                    emit (SetFont ''Helvetica-Bold'' (heading_size st)) (cur_canvas st)\<rparr>;
             st = st\<lparr>cur_canvas :=
                    emit (DrawString (margin d) (cur_y st) section_title) (cur_canvas st)\<rparr>;
             st = st\<lparr>cur_y := cur_y st - heading_leading st\<rparr>;
             st = st\<lparr>cur_canvas := emit (SetFillColor ''black'') (cur_canvas st)\<rparr>;
             st = draw_runs sw d as_bullets st lines;
             st = st\<lparr>cur_y := cur_y st - section_gap st\<rparr>
         in st))"

text \<open>
  The section loop with its \<open>break\<close>: after a section, \<open>if y < margin + 8\<close> sets
  \<open>overflow\<close> and leaves the loop.
\<close>

fun section_loop :: "metrics \<Rightarrow> doc \<Rightarrow> locals \<Rightarrow> pdf_section list \<Rightarrow> locals" where
  "section_loop sw d st [] = st"
| "section_loop sw d st (sec # rest) =
     (let st' = draw_section sw d st sec
      in if cur_y st' < margin d + 8 then st'\<lparr>cur_overflow := True\<rparr>
         else section_loop sw d st' rest)"

text \<open>
  One pass of the body of \<open>for scale in ...\<close>, up to the end of the section loop.
  \<open>prev\<close> holds the variables as the previous pass left them (\<open>None\<close> before the first
  pass).
\<close>

definition scale_attempt :: "metrics \<Rightarrow> doc \<Rightarrow> string \<Rightarrow> locals option \<Rightarrow> real \<Rightarrow> locals" where
  "scale_attempt sw d output_path prev scale =
     (let st = (case prev of None \<Rightarrow> entry_locals | Some st' \<Rightarrow> st');
          st = draw_header d output_path scale st
      in section_loop sw d st (sections d))"

text \<open>
  The loop \<open>for scale in ...\<close>: every pass saves its canvas; a pass without overflow
  returns, a pass with overflow goes on to the next scale. The function returns
  \<open>None\<close> (the unit value) on both ways out; its effect is the file it leaves.
\<close>

fun scale_loop ::
  "metrics \<Rightarrow> doc \<Rightarrow> string \<Rightarrow> locals option \<Rightarrow> filesystem \<Rightarrow> real list \<Rightarrow> unit \<times> filesystem"
where
  "scale_loop sw d output_path prev fs [] = ((), fs)"
| "scale_loop sw d output_path prev fs (scale # rest) =
     (let st = scale_attempt sw d output_path prev scale
      in if \<not> cur_overflow st then ((), save (cur_canvas st) fs)
         else scale_loop sw d output_path (Some st) (save (cur_canvas st) fs) rest)"

definition tidum_doc :: doc where
  "tidum_doc =
     \<lparr>page_width = 612, page_height = 792, margin = 48,
      doc_title = ''Tidum App Summary (Repo-based)'',
      sections =
        [(''What it is'',
          [''Tidum is a web app for logging work time, managing workforce workflows, and handling case-report processes.'',
           ''The codebase combines a React frontend with Express APIs and PostgreSQL/Drizzle storage.''],
          False),
         (''Who it is for'',
          [''Primary persona (inferred from role model and pages): Norwegian operations teams where staff log hours/case work and team leads/admins review operations.'',
           ''Formal persona document: Not found in repo.''],
          False),
         (''What it does'',
          [''Track time with live timer, manual entry, bulk entry, and CRUD endpoints.'',
           ''View dashboard stats, activity feed, and chart analytics.'',
           ''Handle leave, overtime, recurring entries, and invoices (including invoice PDF endpoint).'',
           ''Manage case reports through draft, submit, review, approve/reject, and comment states.'',
           ''Use role-based auth and admin controls, including vendor API key management and /api/v1/vendor/* access.'',
           ''Edit public content in CMS: builder pages, blog, forms, media, SEO, versions, and scheduling.''],
          True),
         (''How it works (architecture)'',
          [''Client: React + Wouter (client/src/App.tsx) with TanStack Query (client/src/lib/queryClient.ts).'',
           ''Server: Express app in server/index.ts wires registerRoutes, registerSmartTimingRoutes, and vendorApi.'',
           ''Data: PostgreSQL (pg pool) + Drizzle in server/db.ts with shared tables in shared/schema.ts.'',
           ''Flow: Browser -> /api/* routes + middleware -> Drizzle queries -> JSON -> React Query cache -> UI.''],
          True),
         (''How to run (minimal)'',
          [''Prereqs: Node.js 20+ and PostgreSQL 14+ (CONTRIBUTING.md).'',
           ''npm install'',
           ''cp .env.example .env, then set at least DATABASE_URL and SESSION_SECRET.'',
           ''npm run db:push'',
           ''npm run dev, then open http://localhost:5000''],
          True)]\<rparr>"

definition build_single_page_pdf :: "metrics \<Rightarrow> string \<Rightarrow> filesystem \<Rightarrow> unit \<times> filesystem" where
  "build_single_page_pdf sw output_path fs =
     scale_loop sw tidum_doc output_path None fs [1.0, 0.96, 0.93, 0.9]"

section \<open>The image script (\<open>scripts/generate_onepager_imagegen.py\<close>)\<close>

text \<open>
  \<open>d.textlength(t, font=font)\<close> belongs to the imaging library and the fonts are loaded
  when the script starts: the measure is a parameter and a font is a value of any type
  \<open>'f\<close>. The page geometry is in whole pixels.
\<close>

type_synonym 'f textlength = "string \<Rightarrow> 'f \<Rightarrow> real"

subsection \<open>\<open>wrap_text\<close>\<close>

text \<open>
  The loop \<open>for w in words\<close> with the loop variables \<open>lines\<close> and \<open>line\<close>; after it,
  \<open>if line: lines.append(line)\<close>.
\<close>

fun wrap_loop_img ::
  "'f textlength \<Rightarrow> 'f \<Rightarrow> real \<Rightarrow> string list \<Rightarrow> string \<Rightarrow> string list \<Rightarrow> string list"
where
  "wrap_loop_img tlen font max_width lines line [] =
     (if line \<noteq> [] then lines @ [line] else lines)"
| "wrap_loop_img tlen font max_width lines line (w # rest) =
     (let t = py_strip (line @ '' '' @ w) in
      if tlen t font \<le> max_width
      then wrap_loop_img tlen font max_width lines t rest
      else wrap_loop_img tlen font max_width (lines @ [line]) w rest)"

definition wrap_text_img :: "'f textlength \<Rightarrow> string \<Rightarrow> 'f \<Rightarrow> real \<Rightarrow> string list" where
  "wrap_text_img tlen text font max_width =
     wrap_loop_img tlen font max_width [] [] (py_split text)"

subsection \<open>\<open>draw_section\<close>\<close>

datatype 'f img_op =
    RoundedRectangle "int \<times> int \<times> int \<times> int" int string string int
  | Text "int \<times> int" string 'f string

text \<open>The global cursor \<open>y\<close> and the calls made on the drawing \<open>d\<close>.\<close>

record 'f img_state =
  img_y :: int
  img_ops :: "'f img_op list"

definition img_W :: int where "img_W = 2480"
definition img_margin :: int where "img_margin = 120"
definition content_w :: int where "content_w = img_W - img_margin * 2"

text \<open>The bullet marker \<open>'\<bullet> '\<close> (U+2022 in UTF-8, and a space) and the blank marker.\<close>

definition bullet_marker :: string where
  "bullet_marker = [CHR 0xE2, CHR 0x80, CHR 0xA2, CHR '' '']"

definition blank_marker :: string where
  "blank_marker = ''  ''"

text \<open>
  \<open>for i, wl in enumerate(wrapped): text_lines.append(('\<bullet> ' + wl) if i == 0 else ('  ' + wl))\<close>,
  as the list of the lines appended, from index \<open>i\<close> on.
\<close>

fun mark_lines :: "nat \<Rightarrow> string list \<Rightarrow> string list" where
  "mark_lines i [] = []"
| "mark_lines i (wl # rest) =
     (if i = 0 then bullet_marker @ wl else blank_marker @ wl) # mark_lines (Suc i) rest"

fun bullet_text_lines ::
  "'f textlength \<Rightarrow> 'f \<Rightarrow> int \<Rightarrow> string list \<Rightarrow> string list \<Rightarrow> string list"
where
  "bullet_text_lines tlen body_font inner_pad text_lines [] = text_lines"
| "bullet_text_lines tlen body_font inner_pad text_lines (line # rest) =
     (let wrapped = wrap_text_img tlen line body_font (real_of_int (content_w - inner_pad * 2 - 40))
      in bullet_text_lines tlen body_font inner_pad (text_lines @ mark_lines 0 wrapped) rest)"

fun plain_text_lines ::
  "'f textlength \<Rightarrow> 'f \<Rightarrow> int \<Rightarrow> string list \<Rightarrow> string list \<Rightarrow> string list"
where
  "plain_text_lines tlen body_font inner_pad text_lines [] = text_lines"
| "plain_text_lines tlen body_font inner_pad text_lines (line # rest) =
     plain_text_lines tlen body_font inner_pad
       (text_lines @ wrap_text_img tlen line body_font (real_of_int (content_w - inner_pad * 2))) rest"

text \<open>The loop \<open>for line in text_lines: d.text(...); ty += 44\<close>.\<close>

fun draw_text_lines :: "'f \<Rightarrow> int \<Rightarrow> int \<Rightarrow> 'f img_op list \<Rightarrow> string list \<Rightarrow> 'f img_op list" where
  "draw_text_lines body_font x ty acc [] = acc"
| "draw_text_lines body_font x ty acc (line # rest) =
     draw_text_lines body_font x (ty + 44)
       (acc @ [Text (x, ty) line body_font ''#2a4c53'']) rest"

definition draw_section_img ::
  "'f textlength \<Rightarrow> 'f \<Rightarrow> 'f \<Rightarrow> string \<Rightarrow> string list \<Rightarrow> bool \<Rightarrow> string \<Rightarrow> string \<Rightarrow>
   'f img_state \<Rightarrow> 'f img_state"
where
  "draw_section_img tlen h1_font body_font title lines bullet box border st =
     (let y = img_y st;
          inner_pad = 34;
          title_h = 56;
          text_lines =
            (if bullet then bullet_text_lines tlen body_font inner_pad [] lines
             else plain_text_lines tlen body_font inner_pad [] lines);
          h = inner_pad + title_h + int (length text_lines) * 44 + inner_pad;
          ops1 = img_ops st @
            [RoundedRectangle (img_margin, y, img_W - img_margin, y + h) 28 box border 3];
          ops2 = ops1 @
            [Text (img_margin + inner_pad, y + inner_pad - 6) title h1_font ''#143e47''];
          ty = y + inner_pad + title_h;
          ops3 = draw_text_lines body_font (img_margin + inner_pad) ty ops2 text_lines
      in \<lparr>img_y = y + (h + 26), img_ops = ops3\<rparr>)"

section \<open>Fixed-pitch measures\<close>

text \<open>
  Two measures to run the functions on concrete inputs: every character is as wide as
  the font size (PDF script), or ten pixels wide (image script).
\<close>

definition mono_width :: metrics where
  "mono_width text font_name font_size = real (length text) * font_size"

definition mono_textlength :: "string textlength" where
  "mono_textlength text font = real (length text) * 10"

section \<open>Auxiliary notions for the statements\<close>

text \<open>
  The calls that \<open>draw_lines\<close> makes, as a list, and the cursor it returns: \<open>leading\<close>
  subtracted once per line.
\<close>

fun line_ops :: "real \<Rightarrow> real \<Rightarrow> real \<Rightarrow> string list \<Rightarrow> draw_op list" where
  "line_ops x y leading [] = []"
| "line_ops x y leading (line # rest) = DrawString x y line # line_ops x (y - leading) leading rest"

fun cursor_after :: "real \<Rightarrow> real \<Rightarrow> string list \<Rightarrow> real" where
  "cursor_after y leading [] = y"
| "cursor_after y leading (line # rest) = cursor_after (y - leading) leading rest"

text \<open>A call that draws the bullet marker of the PDF script.\<close>

fun is_marker :: "draw_op \<Rightarrow> bool" where
  "is_marker (DrawString x y text) = (text = ''- '')"
| "is_marker _ = False"

text \<open>The call that opens a section of the PDF script: the heading colour.\<close>

definition is_section_start :: "draw_op \<Rightarrow> bool" where
  "is_section_start op \<longleftrightarrow> op = SetFillColor ''#163B5A''"

text \<open>A call that sets no font, or one of the three font sizes of a scale.\<close>

fun scaled_font :: "real \<Rightarrow> draw_op \<Rightarrow> bool" where
  "scaled_font scale (SetFont name font_size) =
     (name = ''Helvetica-Bold'' \<and> font_size = 24 * scale \<or>
      name = ''Helvetica-Bold'' \<and> font_size = 13.5 * scale \<or>
      name = ''Helvetica'' \<and> font_size = 11.0 * scale)"
| "scaled_font scale _ = True"

text \<open>
  The section loop without its overflow check: every section is laid out. It gives
  the cursor that a complete layout reaches.
\<close>

fun layout_all :: "metrics \<Rightarrow> doc \<Rightarrow> locals \<Rightarrow> pdf_section list \<Rightarrow> locals" where
  "layout_all sw d st [] = st"
| "layout_all sw d st (sec # rest) = layout_all sw d (draw_section sw d st sec) rest"

text \<open>
  The canvas and the cursor after the header and the sections \<open>secs\<close> are laid out in
  full at a scale.
\<close>

definition full_layout :: "metrics \<Rightarrow> doc \<Rightarrow> string \<Rightarrow> real \<Rightarrow> pdf_section list \<Rightarrow> canvas \<times> real" where
  "full_layout sw d output_path scale secs =
     (let st = layout_all sw d (draw_header d output_path scale entry_locals) secs
      in (cur_canvas st, cur_y st))"

text \<open>The variables with the canvas carried over to another file name.\<close>

definition rename :: "string \<Rightarrow> locals \<Rightarrow> locals" where
  "rename path st = st\<lparr>cur_canvas := (cur_canvas st)\<lparr>filename := path\<rparr>\<rparr>"

text \<open>Small documents to run the driver on.\<close>

definition doc_small :: doc where
  "doc_small =
     \<lparr>page_width = 100, page_height = 99.6, margin = 10, doc_title = ''T'',
      sections = [(''A'', [''x''], False)]\<rparr>"

definition doc_three :: doc where
  "doc_three =
     \<lparr>page_width = 100, page_height = 140, margin = 10, doc_title = ''T'',
      sections = [(''A'', [''x''], False), (''B'', [''y''], True), (''C'', [''z''], False)]\<rparr>"

text \<open>The calls that \<open>draw_text_lines\<close> of the image script adds, as a list.\<close>

fun text_ops :: "'f \<Rightarrow> int \<Rightarrow> int \<Rightarrow> string list \<Rightarrow> 'f img_op list" where
  "text_ops body_font x ty [] = []"
| "text_ops body_font x ty (line # rest) =
     Text (x, ty) line body_font ''#2a4c53'' # text_ops body_font x (ty + 44) rest"

section \<open>Splitting and stripping\<close>

lemma isspace_space: "isspace CHR '' ''"
  by (simp add: isspace_def)

lemma split_from_no_space:
  "\<forall>ch \<in> set s. \<not> isspace ch \<Longrightarrow> split_from cur s = (if cur @ s = [] then [] else [cur @ s])"
  by (induction s arbitrary: cur) auto

lemma split_from_append_space:
  "split_from cur (a @ CHR '' '' # b) = split_from cur a @ split_from [] b"
  by (induction a arbitrary: cur) (auto simp: isspace_space)

lemma split_from_is_token:
  "w \<in> set (split_from cur s) \<Longrightarrow> \<forall>ch \<in> set cur. \<not> isspace ch \<Longrightarrow> is_token w"
proof (induction s arbitrary: cur)
  case Nil
  then show ?case by (auto simp: is_token_def split: if_splits)
next
  case (Cons ch cs)
  show ?case
  proof (cases "isspace ch")
    case True
    with Cons.prems have "w = cur \<and> cur \<noteq> [] \<or> w \<in> set (split_from [] cs)"
      by (auto split: if_splits)
    then show ?thesis
      using Cons.IH [of "[]"] Cons.prems(2) by (auto simp: is_token_def)
  next
    case False
    with Cons.prems have "w \<in> set (split_from (cur @ [ch]) cs)" by simp
    moreover have "\<forall>x \<in> set (cur @ [ch]). \<not> isspace x"
      using False Cons.prems(2) by auto
    ultimately show ?thesis by (rule Cons.IH)
  qed
qed

lemma py_split_is_token: "w \<in> set (py_split text) \<Longrightarrow> is_token w"
  unfolding py_split_def by (erule split_from_is_token) simp

lemma py_split_token: "is_token w \<Longrightarrow> py_split w = [w]"
  by (simp add: py_split_def is_token_def split_from_no_space)

lemma py_split_join: "py_split (a @ CHR '' '' # b) = py_split a @ py_split b"
  by (simp add: py_split_def split_from_append_space)

lemma py_strip_trimmed:
  "l \<noteq> [] \<Longrightarrow> \<not> isspace (hd l) \<Longrightarrow> \<not> isspace (last l) \<Longrightarrow> py_strip l = l"
proof -
  assume a: "l \<noteq> []" "\<not> isspace (hd l)" "\<not> isspace (last l)"
  have 1: "dropWhile isspace l = l"
    using a by (simp add: dropWhile_eq_self_iff)
  have 2: "dropWhile isspace (rev l) = rev l"
    using a by (simp add: dropWhile_eq_self_iff hd_rev)
  show ?thesis by (simp add: py_strip_def 1 2)
qed

lemma py_strip_space_token: "is_token w \<Longrightarrow> py_strip (CHR '' '' # w) = w"
proof -
  assume tok: "is_token w"
  then have "dropWhile isspace w = w" "dropWhile isspace (rev w) = rev w"
    by (auto simp: is_token_def dropWhile_eq_self_iff hd_rev)
  then show ?thesis by (simp add: py_strip_def isspace_space)
qed

lemma py_strip_join:
  assumes "line \<noteq> []" "\<not> isspace (hd line)" "is_token w"
  shows "py_strip (line @ CHR '' '' # w) = line @ CHR '' '' # w"
  using assms by (intro py_strip_trimmed) (auto simp: is_token_def)

section \<open>The wrap loop of the PDF script\<close>

lemma wrap_loop_tokens:
  "\<forall>w \<in> set ws. is_token w \<Longrightarrow>
   concat (map py_split (wrap_loop sw fn fs W lines cur ws)) =
   concat (map py_split lines) @ py_split cur @ ws"
proof (induction ws arbitrary: lines cur)
  case Nil
  then show ?case by simp
next
  case (Cons w ws)
  then show ?case
    by (simp add: Let_def py_split_join py_split_token)
qed

lemma wrap_text_tokens: "concat (map py_split (wrap_text sw T fn fs W)) = py_split T"
proof (cases "py_split T")
  case Nil
  then show ?thesis by (simp add: wrap_text_def py_split_def)
next
  case (Cons w ws)
  then have tok: "is_token w" "\<forall>x \<in> set ws. is_token x"
    using py_split_is_token [of _ T] by auto
  show ?thesis
    using Cons tok by (simp add: wrap_text_def wrap_loop_tokens py_split_token)
qed

text \<open>
  A property of lines that holds of the starting buffer, of every token and of every
  accepted candidate holds of every line returned.
\<close>

lemma wrap_loop_invariant:
  assumes "\<forall>l \<in> set lines. P l" and "P cur"
    and "\<And>c w. P c \<Longrightarrow> w \<in> set ws \<Longrightarrow> sw (c @ CHR '' '' # w) fn fs \<le> W \<Longrightarrow> P (c @ CHR '' '' # w)"
    and "\<And>w. w \<in> set ws \<Longrightarrow> P w"
  shows "\<forall>l \<in> set (wrap_loop sw fn fs W lines cur ws). P l"
  using assms
proof (induction ws arbitrary: lines cur)
  case Nil
  then show ?case by simp
next
  case (Cons w ws)
  show ?case
  proof (cases "sw (cur @ CHR '' '' # w) fn fs \<le> W")
    case True
    have "\<forall>l \<in> set (wrap_loop sw fn fs W lines (cur @ CHR '' '' # w) ws). P l"
    proof (rule Cons.IH)
      show "\<forall>l \<in> set lines. P l" by (rule Cons.prems(1))
      show "P (cur @ CHR '' '' # w)" using Cons.prems(2,3) True by simp
    qed (use Cons.prems in auto)
    with True show ?thesis by simp
  next
    case False
    have "\<forall>l \<in> set (wrap_loop sw fn fs W (lines @ [cur]) w ws). P l"
    proof (rule Cons.IH)
      show "\<forall>l \<in> set (lines @ [cur]). P l" using Cons.prems(1,2) by simp
      show "P w" using Cons.prems(4) by simp
    qed (use Cons.prems in auto)
    with False show ?thesis by simp
  qed
qed

lemma wrap_loop_append: "wrap_loop sw fn fs W lines cur ws = lines @ wrap_loop sw fn fs W [] cur ws"
proof (induction ws arbitrary: lines cur)
  case Nil
  show ?case by simp
next
  case (Cons w ws)
  show ?case
    using Cons.IH [of "lines @ [cur]" w] Cons.IH [of "[cur]" w] Cons.IH [of lines]
    by (simp add: Let_def)
qed

lemma wrap_loop_first: "\<exists>x rest. wrap_loop sw fn fs W [] cur ws = (cur @ x) # rest"
proof (induction ws arbitrary: cur)
  case Nil
  show ?case by simp
next
  case (Cons w ws)
  show ?case
  proof (cases "sw (cur @ CHR '' '' # w) fn fs \<le> W")
    case True
    from Cons.IH [of "cur @ CHR '' '' # w"] obtain x rest
      where "wrap_loop sw fn fs W [] (cur @ CHR '' '' # w) ws = ((cur @ CHR '' '' # w) @ x) # rest"
      by blast
    with True show ?thesis by simp
  next
    case False
    have "wrap_loop sw fn fs W [cur] w ws = [cur] @ wrap_loop sw fn fs W [] w ws"
      by (rule wrap_loop_append)
    with False show ?thesis by simp
  qed
qed

lemma wrap_text_wide_line:
  assumes "l \<in> set (wrap_text sw T fn fs W)" and "\<not> sw l fn fs \<le> W"
  shows "l \<in> set (py_split T) \<or> (l = [] \<and> py_split T = [])"
proof (cases "py_split T")
  case Nil
  with assms(1) show ?thesis by (simp add: wrap_text_def)
next
  case (Cons w ws)
  let ?P = "\<lambda>l. sw l fn fs \<le> W \<or> l \<in> set (py_split T)"
  have "\<forall>l \<in> set (wrap_loop sw fn fs W [] w ws). ?P l"
    by (rule wrap_loop_invariant) (simp_all add: Cons)
  with assms Cons show ?thesis by (auto simp: wrap_text_def)
qed

lemma wrap_text_no_empty_line:
  assumes "py_split T = w # ws"
  shows "[] \<notin> set (wrap_text sw T fn fs W)"
proof -
  have tok: "\<And>x. x \<in> set (w # ws) \<Longrightarrow> x \<noteq> []"
    using py_split_is_token [of _ T] assms by (auto simp: is_token_def)
  have "\<forall>l \<in> set (wrap_loop sw fn fs W [] w ws). l \<noteq> []"
    by (rule wrap_loop_invariant) (use tok in auto)
  with assms show ?thesis by (auto simp: wrap_text_def)
qed

lemma wrap_text_first_line:
  assumes "py_split T = w # ws"
  shows "prefix w (hd (wrap_text sw T fn fs W))"
  using wrap_loop_first [of sw fn fs W w ws] assms
  by (auto simp: wrap_text_def)

section \<open>The wrap loop of the image script\<close>

lemma wrap_loop_img_tokens:
  assumes "\<forall>w \<in> set ws. is_token w" and "line = [] \<or> \<not> isspace (hd line)"
  shows "concat (map py_split (wrap_loop_img tlen font W lines line ws)) =
         concat (map py_split lines) @ py_split line @ ws"
  using assms
proof (induction ws arbitrary: lines line)
  case Nil
  then show ?case by (simp add: py_split_def)
next
  case (Cons w ws)
  from Cons.prems(1) have tok: "is_token w" and toks: "\<forall>x \<in> set ws. is_token x" by simp_all
  define t where "t = py_strip (line @ CHR '' '' # w)"
  have t_eq: "t = (if line = [] then w else line @ CHR '' '' # w)"
    using Cons.prems(2) tok by (auto simp: t_def py_strip_space_token py_strip_join)
  have t_hd: "t = [] \<or> \<not> isspace (hd t)"
    using Cons.prems(2) tok by (auto simp: t_eq is_token_def)
  have t_split: "py_split t = py_split line @ [w]"
    using tok by (simp add: t_eq py_split_join py_split_token) (simp add: py_split_def)
  have w_hd: "w = [] \<or> \<not> isspace (hd w)"
    using tok by (auto simp: is_token_def)
  show ?case
  proof (cases "tlen t font \<le> W")
    case True
    then show ?thesis
      using Cons.IH [OF toks t_hd, of lines] t_split by (simp add: t_def)
  next
    case False
    then show ?thesis
      using Cons.IH [OF toks w_hd, of "lines @ [line]"] tok
      by (simp add: t_def py_split_token)
  qed
qed

lemma wrap_text_img_tokens:
  "concat (map py_split (wrap_text_img tlen T font W)) = py_split T"
proof -
  have "\<forall>w \<in> set (py_split T). is_token w"
    using py_split_is_token by blast
  then have "concat (map py_split (wrap_loop_img tlen font W [] [] (py_split T))) =
      concat (map py_split []) @ py_split [] @ py_split T"
    by (rule wrap_loop_img_tokens) simp
  moreover have "py_split [] = []" by (simp add: py_split_def)
  ultimately show ?thesis by (simp add: wrap_text_img_def)
qed

lemma wrap_loop_img_invariant:
  assumes "\<forall>l \<in> set lines. P l" and "P line"
    and "\<And>t. tlen t font \<le> W \<Longrightarrow> P t"
    and "\<And>w. w \<in> set ws \<Longrightarrow> P w"
  shows "\<forall>l \<in> set (wrap_loop_img tlen font W lines line ws). P l"
  using assms
proof (induction ws arbitrary: lines line)
  case Nil
  then show ?case by simp
next
  case (Cons w ws)
  define t where "t = py_strip (line @ CHR '' '' # w)"
  show ?case
  proof (cases "tlen t font \<le> W")
    case True
    have "\<forall>l \<in> set (wrap_loop_img tlen font W lines t ws). P l"
    proof (rule Cons.IH)
      show "P t" using True Cons.prems(3) by simp
    qed (use Cons.prems in auto)
    with True show ?thesis by (simp add: t_def)
  next
    case False
    have "\<forall>l \<in> set (wrap_loop_img tlen font W (lines @ [line]) w ws). P l"
    proof (rule Cons.IH)
      show "\<forall>l \<in> set (lines @ [line]). P l" using Cons.prems(1,2) by simp
      show "P w" using Cons.prems(4) by simp
    qed (use Cons.prems in auto)
    with False show ?thesis by (simp add: t_def)
  qed
qed

lemma wrap_text_img_wide_line:
  assumes "l \<in> set (wrap_text_img tlen T font W)" and "\<not> tlen l font \<le> W"
  shows "l \<in> set (py_split T) \<or> l = []"
proof -
  let ?P = "\<lambda>l. tlen l font \<le> W \<or> l \<in> set (py_split T) \<or> l = []"
  have "\<forall>l \<in> set (wrap_loop_img tlen font W [] [] (py_split T)). ?P l"
    by (rule wrap_loop_img_invariant) simp_all
  with assms show ?thesis by (auto simp: wrap_text_img_def)
qed

lemma wrap_loop_img_fits:
  assumes "\<forall>w \<in> set ws. is_token w \<and> tlen w font \<le> W"
    and "\<forall>l \<in> set lines. tlen l font \<le> W"
    and "line = [] \<or> tlen line font \<le> W"
  shows "\<forall>l \<in> set (wrap_loop_img tlen font W lines line ws). tlen l font \<le> W"
  using assms
proof (induction ws arbitrary: lines line)
  case Nil
  show ?case
  proof (cases "line = []")
    case True
    then show ?thesis using Nil.prems(2) by simp
  next
    case False
    then show ?thesis using Nil.prems(2,3) by simp
  qed
next
  case (Cons w ws)
  from Cons.prems(1) have tok: "is_token w" and fit: "tlen w font \<le> W"
    and rest: "\<forall>x \<in> set ws. is_token x \<and> tlen x font \<le> W" by simp_all
  define t where "t = py_strip (line @ CHR '' '' # w)"
  show ?case
  proof (cases "tlen t font \<le> W")
    case True
    then have "t = [] \<or> tlen t font \<le> W" by simp
    with rest Cons.prems(2)
    have "\<forall>l \<in> set (wrap_loop_img tlen font W lines t ws). tlen l font \<le> W"
      by (rule Cons.IH)
    moreover have "wrap_loop_img tlen font W lines line (w # ws) =
        wrap_loop_img tlen font W lines t ws"
      using True by (simp add: t_def)
    ultimately show ?thesis by simp
  next
    case False
    have "line \<noteq> []"
    proof
      assume "line = []"
      then have "t = w" using tok by (simp add: t_def py_strip_space_token)
      with fit False show False by simp
    qed
    with Cons.prems(2,3) have prev: "\<forall>l \<in> set (lines @ [line]). tlen l font \<le> W"
      by simp
    have "w = [] \<or> tlen w font \<le> W" using fit by simp
    with rest prev
    have "\<forall>l \<in> set (wrap_loop_img tlen font W (lines @ [line]) w ws). tlen l font \<le> W"
      by (rule Cons.IH)
    moreover have "wrap_loop_img tlen font W lines line (w # ws) =
        wrap_loop_img tlen font W (lines @ [line]) w ws"
      using False by (simp add: t_def)
    ultimately show ?thesis by simp
  qed
qed

lemma wrap_text_img_fits:
  assumes "\<forall>tok \<in> set (py_split T). tlen tok font \<le> W"
  shows "\<forall>l \<in> set (wrap_text_img tlen T font W). tlen l font \<le> W"
  unfolding wrap_text_img_def
  by (rule wrap_loop_img_fits) (use assms py_split_is_token [of _ T] in auto)

section \<open>Claims on the word wrapper\<close>

text \<open>
  C3. For every text, font and width, in both scripts: splitting the lines that
  \<open>wrap_text\<close> returns on whitespace and concatenating the tokens in line order gives
  the token sequence of the text, nothing dropped, nothing repeated, in order.
\<close>

theorem wrap_preserves_tokens:
  "concat (map py_split (wrap_text sw T fn fs W)) = py_split T \<and>
   concat (map py_split (wrap_text_img tlen T font W)) = py_split T"
  by (simp add: wrap_text_tokens wrap_text_img_tokens)

theorem wrap_preserves_tokens_witness:
  "concat (map py_split (wrap_text mono_width ''aaaa bb  cc'' ''Helvetica'' 10 50)) =
     [''aaaa'', ''bb'', ''cc''] \<and>
   concat (map py_split (wrap_text_img mono_textlength ''aaaa bb  cc'' ''Arial'' 50)) =
     [''aaaa'', ''bb'', ''cc'']"
  using wrap_preserves_tokens
    [of mono_width "''aaaa bb  cc''" "''Helvetica''" 10 50 mono_textlength "''Arial''"]
  by (simp add: py_split_def isspace_def)

text \<open>
  C5, as amended. For every font and width, the PDF script's \<open>wrap_text\<close> returns
  exactly one line for the empty text, the empty string; the image script's
  \<open>wrap_text\<close> returns no line at all for it.
\<close>

theorem wrap_empty_text:
  "wrap_text sw '''' fn fs W = [''''] \<and> wrap_text_img tlen '''' font W = []"
  by (simp add: wrap_text_def wrap_text_img_def py_split_def)

text \<open>
  C5 as stated fails in the image script: the empty text gives zero lines there.
\<close>

theorem wrap_empty_text_counterexample:
  "wrap_text_img mono_textlength '''' ''Arial'' 100 \<noteq> [''''] \<and>
   length (wrap_text_img mono_textlength '''' ''Arial'' 100) = 0"
  by (simp add: wrap_text_img_def py_split_def)

text \<open>
  C9, as amended. For every text with at least one token, the PDF script's
  \<open>wrap_text\<close> returns no empty line, and its first line begins with the first token.
\<close>

theorem wrap_no_empty_line:
  assumes "py_split T \<noteq> []"
  shows "[] \<notin> set (wrap_text sw T fn fs W) \<and>
         prefix (hd (py_split T)) (hd (wrap_text sw T fn fs W))"
proof -
  from assms obtain w ws where "py_split T = w # ws"
    by (cases "py_split T") auto
  then show ?thesis
    using wrap_text_no_empty_line [of T w ws sw fn fs W]
      wrap_text_first_line [of T w ws sw fn fs W]
    by simp
qed

theorem wrap_no_empty_line_witness:
  "py_split ''aaaa bb cc'' \<noteq> [] \<and>
   [] \<notin> set (wrap_text mono_width ''aaaa bb cc'' ''Helvetica'' 10 30) \<and>
   prefix ''aaaa'' (hd (wrap_text mono_width ''aaaa bb cc'' ''Helvetica'' 10 30))"
proof -
  have h: "py_split ''aaaa bb cc'' \<noteq> []"
    by (simp add: py_split_def isspace_def)
  have "hd (py_split ''aaaa bb cc'') = ''aaaa''"
    by (simp add: py_split_def isspace_def)
  with h wrap_no_empty_line [OF h, of mono_width "''Helvetica''" 10 30]
  show ?thesis by simp
qed

text \<open>
  C9 as stated fails for a text that is not empty but holds whitespace only: it has
  no first token, and the one line returned is the empty string.
\<close>

theorem wrap_no_empty_line_counterexample:
  "'' '' \<noteq> [] \<and> [] \<in> set (wrap_text mono_width '' '' ''Helvetica'' 11 100)"
  by (simp add: wrap_text_def py_split_def isspace_def)

text \<open>
  C2, as amended. In both scripts, a returned line wider than the limit is a single
  token of the text, wider than the limit by itself, or it is the empty string (the
  line the PDF script returns for a text without tokens, and the empty buffer the
  image script flushes before a first token that is too wide). So when the limit is
  at least the width of every token, and at least the width of the empty string
  where that line can occur, every returned line is within the limit.
\<close>

theorem wrap_line_widths:
  "((\<forall>tok \<in> set (py_split T). sw tok fn fs \<le> W) \<and> (py_split T = [] \<longrightarrow> sw [] fn fs \<le> W)
      \<longrightarrow> (\<forall>l \<in> set (wrap_text sw T fn fs W). sw l fn fs \<le> W)) \<and>
   (\<forall>l \<in> set (wrap_text sw T fn fs W).
      \<not> sw l fn fs \<le> W \<longrightarrow> l \<in> set (py_split T) \<or> (l = [] \<and> py_split T = [])) \<and>
   ((\<forall>tok \<in> set (py_split T). tlen tok font \<le> W)
      \<longrightarrow> (\<forall>l \<in> set (wrap_text_img tlen T font W). tlen l font \<le> W)) \<and>
   (\<forall>l \<in> set (wrap_text_img tlen T font W).
      \<not> tlen l font \<le> W \<longrightarrow> l \<in> set (py_split T) \<or> l = [])"
proof (intro conjI impI ballI)
  fix l
  assume pre: "(\<forall>tok \<in> set (py_split T). sw tok fn fs \<le> W) \<and> (py_split T = [] \<longrightarrow> sw [] fn fs \<le> W)"
    and l: "l \<in> set (wrap_text sw T fn fs W)"
  show "sw l fn fs \<le> W"
  proof (rule ccontr)
    assume "\<not> sw l fn fs \<le> W"
    with l have "l \<in> set (py_split T) \<or> (l = [] \<and> py_split T = [])"
      by (rule wrap_text_wide_line)
    with pre \<open>\<not> sw l fn fs \<le> W\<close> show False by blast
  qed
next
  fix l
  assume "l \<in> set (wrap_text sw T fn fs W)" "\<not> sw l fn fs \<le> W"
  then show "l \<in> set (py_split T) \<or> (l = [] \<and> py_split T = [])"
    by (rule wrap_text_wide_line)
next
  fix l
  assume "\<forall>tok \<in> set (py_split T). tlen tok font \<le> W"
    and "l \<in> set (wrap_text_img tlen T font W)"
  then show "tlen l font \<le> W"
    using wrap_text_img_fits [of T tlen font W] by blast
next
  fix l
  assume "l \<in> set (wrap_text_img tlen T font W)" "\<not> tlen l font \<le> W"
  then show "l \<in> set (py_split T) \<or> l = []"
    by (rule wrap_text_img_wide_line)
qed

theorem wrap_line_widths_witness:
  "list_all (\<lambda>tok. mono_width tok ''Helvetica'' 10 \<le> 50) (py_split ''aaaa bb cc'') \<and>
   list_all (\<lambda>tok. mono_textlength tok ''Arial'' \<le> 50) (py_split ''aaaa bb cc'') \<and>
   wrap_text mono_width ''aaaa bb cc'' ''Helvetica'' 10 50 = [''aaaa'', ''bb cc''] \<and>
   wrap_text_img mono_textlength ''aaaa bb cc'' ''Arial'' 50 = [''aaaa'', ''bb cc''] \<and>
   list_all (\<lambda>l. mono_width l ''Helvetica'' 10 \<le> 50)
     (wrap_text mono_width ''aaaa bb cc'' ''Helvetica'' 10 50) \<and>
   list_all (\<lambda>l. mono_textlength l ''Arial'' \<le> 50)
     (wrap_text_img mono_textlength ''aaaa bb cc'' ''Arial'' 50) \<and>
   ''aaaa'' \<in> set (wrap_text mono_width ''aaaa bb cc'' ''Helvetica'' 10 30) \<and>
   \<not> mono_width ''aaaa'' ''Helvetica'' 10 \<le> 30 \<and>
   ''aaaa'' \<in> set (py_split ''aaaa bb cc'')"
proof -
  have toks: "py_split ''aaaa bb cc'' = [''aaaa'', ''bb'', ''cc'']"
    by (simp add: py_split_def isspace_def)
  have h1: "(\<forall>tok \<in> set (py_split ''aaaa bb cc''). mono_width tok ''Helvetica'' 10 \<le> 50) \<and>
      (py_split ''aaaa bb cc'' = [] \<longrightarrow> mono_width [] ''Helvetica'' 10 \<le> 50)"
    by (simp add: toks mono_width_def)
  have h2: "\<forall>tok \<in> set (py_split ''aaaa bb cc''). mono_textlength tok ''Arial'' \<le> 50"
    by (simp add: toks mono_textlength_def)
  have w1: "wrap_text mono_width ''aaaa bb cc'' ''Helvetica'' 10 50 = [''aaaa'', ''bb cc'']"
    by (simp add: wrap_text_def toks mono_width_def)
  have w2: "wrap_text_img mono_textlength ''aaaa bb cc'' ''Arial'' 50 = [''aaaa'', ''bb cc'']"
    by (simp add: wrap_text_img_def toks py_strip_def isspace_def mono_textlength_def)
  have w3: "''aaaa'' \<in> set (wrap_text mono_width ''aaaa bb cc'' ''Helvetica'' 10 30)"
    by (simp add: wrap_text_def toks mono_width_def)
  have w4: "\<not> mono_width ''aaaa'' ''Helvetica'' 10 \<le> 30"
    by (simp add: mono_width_def)
  note inst = wrap_line_widths
    [of "''aaaa bb cc''" mono_width "''Helvetica''" 10 50 mono_textlength "''Arial''"]
  note inst30 = wrap_line_widths
    [of "''aaaa bb cc''" mono_width "''Helvetica''" 10 30 mono_textlength "''Arial''"]
  from inst h1 have a: "\<forall>l \<in> set (wrap_text mono_width ''aaaa bb cc'' ''Helvetica'' 10 50).
      mono_width l ''Helvetica'' 10 \<le> 50" by blast
  from inst h2 have b: "\<forall>l \<in> set (wrap_text_img mono_textlength ''aaaa bb cc'' ''Arial'' 50).
      mono_textlength l ''Arial'' \<le> 50" by blast
  from inst30 w3 w4 have c: "''aaaa'' \<in> set (py_split ''aaaa bb cc'')" by blast
  from h1 h2 w1 w2 a b w3 w4 c show ?thesis
    unfolding list_all_iff by blast
qed

text \<open>
  C2 as stated fails for a text without tokens when the limit is below the width of
  the empty string: no token is wider than the limit, yet the one line returned, the
  empty string, is.
\<close>

theorem wrap_line_widths_counterexample:
  "py_split '''' = [] \<and>
   wrap_text mono_width '''' ''Helvetica'' 11 (- 1) = [''''] \<and>
   \<not> mono_width '''' ''Helvetica'' 11 \<le> - 1"
  by (simp add: wrap_text_def py_split_def mono_width_def)

section \<open>What the drawing functions add to a canvas\<close>

lemma draw_lines_eq:
  "draw_lines c x y leading ls =
     (c\<lparr>ops := ops c @ line_ops x y leading ls\<rparr>, cursor_after y leading ls)"
  by (induction ls arbitrary: c y) (simp_all add: emit_def)

lemma line_ops_x:
  "op \<in> set (line_ops x y leading ls) \<Longrightarrow> \<exists>y' l. op = DrawString x y' l \<and> l \<in> set ls"
proof (induction ls arbitrary: y)
  case Nil
  then show ?case by simp
next
  case (Cons a ls)
  from Cons.prems have "op = DrawString x y a \<or> op \<in> set (line_ops x (y - leading) leading ls)"
    by simp
  then show ?case
  proof
    assume "op = DrawString x y a"
    then show ?thesis by simp
  next
    assume "op \<in> set (line_ops x (y - leading) leading ls)"
    then obtain y' l where "op = DrawString x y' l" "l \<in> set ls"
      using Cons.IH by blast
    then show ?thesis by auto
  qed
qed

lemma draw_paragraph_eq:
  "draw_paragraph sw c text x y width fn fs leading =
     (c\<lparr>ops := ops c @ SetFont fn fs # line_ops x y leading (wrap_text sw text fn fs width)\<rparr>,
      cursor_after y leading (wrap_text sw text fn fs width))"
  by (simp add: draw_paragraph_def Let_def draw_lines_eq emit_def)

lemma wrap_text_nonempty: "wrap_text sw text fn fs W \<noteq> []"
proof (cases "py_split text")
  case Nil
  then show ?thesis by (simp add: wrap_text_def)
next
  case (Cons w ws)
  then show ?thesis
    using wrap_loop_first [of sw fn fs W w ws] by (auto simp: wrap_text_def)
qed

lemma draw_bullet_eq:
  "draw_bullet sw c text x y width fn fs leading =
     (c\<lparr>ops := ops c @ [SetFont fn fs, DrawString x y ''- ''] @
        line_ops (x + sw ''- '' fn fs) y leading
          (wrap_text sw text fn fs (width - sw ''- '' fn fs))\<rparr>,
      cursor_after y leading (wrap_text sw text fn fs (width - sw ''- '' fn fs)))"
proof -
  obtain first rest where w: "wrap_text sw text fn fs (width - sw ''- '' fn fs) = first # rest"
    using wrap_text_nonempty [of sw "text" fn fs "width - sw ''- '' fn fs"]
    by (cases "wrap_text sw text fn fs (width - sw ''- '' fn fs)") auto
  show ?thesis
    by (simp add: draw_bullet_def Let_def w draw_lines_eq emit_def)
qed

text \<open>One run adds calls that draw text or set the body font, and at least one.\<close>

lemma run_step:
  "\<exists>more y'. more \<noteq> [] \<and>
     (\<forall>op \<in> set more. (\<exists>x y t. op = DrawString x y t) \<or> op = SetFont ''Helvetica'' bs) \<and>
     (if b then draw_bullet sw c line x y0 width ''Helvetica'' bs leading
      else draw_paragraph sw c line x y0 width ''Helvetica'' bs leading) =
       (c\<lparr>ops := ops c @ more\<rparr>, y')"
proof (cases b)
  case True
  let ?more = "[SetFont ''Helvetica'' bs, DrawString x y0 ''- ''] @
      line_ops (x + sw ''- '' ''Helvetica'' bs) y0 leading
        (wrap_text sw line ''Helvetica'' bs (width - sw ''- '' ''Helvetica'' bs))"
  have "\<forall>op \<in> set ?more. (\<exists>x y t. op = DrawString x y t) \<or> op = SetFont ''Helvetica'' bs"
    using line_ops_x by fastforce
  moreover have "?more \<noteq> []" by simp
  ultimately show ?thesis
    using True draw_bullet_eq [of sw c line x y0 width "''Helvetica''" bs leading] by metis
next
  case False
  let ?more = "SetFont ''Helvetica'' bs #
      line_ops x y0 leading (wrap_text sw line ''Helvetica'' bs width)"
  have "\<forall>op \<in> set ?more. (\<exists>x y t. op = DrawString x y t) \<or> op = SetFont ''Helvetica'' bs"
    using line_ops_x by fastforce
  moreover have "?more \<noteq> []" by simp
  ultimately show ?thesis
    using False draw_paragraph_eq [of sw c line x y0 width "''Helvetica''" bs leading] by metis
qed

lemma draw_runs_shape:
  "\<exists>more y'.
     (\<forall>op \<in> set more. (\<exists>x y t. op = DrawString x y t) \<or> op = SetFont ''Helvetica'' (body_size st)) \<and>
     draw_runs sw d b st runs =
       st\<lparr>cur_canvas := (cur_canvas st)\<lparr>ops := ops (cur_canvas st) @ more\<rparr>, cur_y := y'\<rparr>"
proof (induction runs arbitrary: st)
  case Nil
  have "draw_runs sw d b st [] =
      st\<lparr>cur_canvas := (cur_canvas st)\<lparr>ops := ops (cur_canvas st) @ []\<rparr>, cur_y := cur_y st\<rparr>"
    by simp
  then show ?case by (metis empty_iff list.set(1))
next
  case (Cons line runs)
  obtain more1 y1 where
    m1: "\<forall>op \<in> set more1. (\<exists>x y t. op = DrawString x y t) \<or> op = SetFont ''Helvetica'' (body_size st)"
    and step: "(if b then draw_bullet sw (cur_canvas st) line (margin d) (cur_y st) (content_width d)
          ''Helvetica'' (body_size st) (body_leading st)
        else draw_paragraph sw (cur_canvas st) line (margin d) (cur_y st) (content_width d)
          ''Helvetica'' (body_size st) (body_leading st)) =
        ((cur_canvas st)\<lparr>ops := ops (cur_canvas st) @ more1\<rparr>, y1)"
    using run_step [where b = b and sw = sw and c = "cur_canvas st" and line = line
      and x = "margin d" and ?y0.0 = "cur_y st" and width = "content_width d"
      and bs = "body_size st" and leading = "body_leading st"] by blast
  define st1 where
    "st1 = st\<lparr>cur_canvas := (cur_canvas st)\<lparr>ops := ops (cur_canvas st) @ more1\<rparr>, cur_y := y1\<rparr>"
  have run: "draw_runs sw d b st (line # runs) = draw_runs sw d b st1 runs"
    by (simp only: draw_runs.simps step Let_def case_prod_conv st1_def)
  obtain more2 y2 where
    m2: "\<forall>op \<in> set more2. (\<exists>x y t. op = DrawString x y t) \<or> op = SetFont ''Helvetica'' (body_size st1)"
    and rest: "draw_runs sw d b st1 runs =
        st1\<lparr>cur_canvas := (cur_canvas st1)\<lparr>ops := ops (cur_canvas st1) @ more2\<rparr>, cur_y := y2\<rparr>"
    using Cons.IH [of st1] by blast
  have bs: "body_size st1 = body_size st" by (simp add: st1_def)
  have "draw_runs sw d b st (line # runs) =
      st\<lparr>cur_canvas := (cur_canvas st)\<lparr>ops := ops (cur_canvas st) @ (more1 @ more2)\<rparr>, cur_y := y2\<rparr>"
    by (simp only: run rest) (simp add: st1_def)
  moreover have "\<forall>op \<in> set (more1 @ more2).
      (\<exists>x y t. op = DrawString x y t) \<or> op = SetFont ''Helvetica'' (body_size st)"
    using m1 m2 bs by auto
  ultimately show ?case by blast
qed

lemma draw_section_shape:
  "\<exists>more y'.
     (\<forall>op \<in> set more. (\<exists>x y t. op = DrawString x y t) \<or> op = SetFont ''Helvetica'' (body_size st)) \<and>
     draw_section sw d st sec =
       st\<lparr>cur_canvas := (cur_canvas st)\<lparr>ops := ops (cur_canvas st) @
            [SetFillColor ''#163B5A'', SetFont ''Helvetica-Bold'' (heading_size st),
             DrawString (margin d) (cur_y st) (fst sec), SetFillColor ''black''] @ more\<rparr>,
          cur_y := y'\<rparr>"
proof -
  obtain t runs b where sec: "sec = (t, runs, b)" by (cases sec)
  define st4 where "st4 = st\<lparr>cur_canvas := (cur_canvas st)\<lparr>ops := ops (cur_canvas st) @
      [SetFillColor ''#163B5A'', SetFont ''Helvetica-Bold'' (heading_size st),
       DrawString (margin d) (cur_y st) t, SetFillColor ''black'']\<rparr>,
      cur_y := cur_y st - heading_leading st\<rparr>"
  obtain more y2 where
    m: "\<forall>op \<in> set more. (\<exists>x y t. op = DrawString x y t) \<or> op = SetFont ''Helvetica'' (body_size st4)"
    and runs: "draw_runs sw d b st4 runs =
        st4\<lparr>cur_canvas := (cur_canvas st4)\<lparr>ops := ops (cur_canvas st4) @ more\<rparr>, cur_y := y2\<rparr>"
    using draw_runs_shape [of st4 sw d b runs] by blast
  have st4_eq: "st\<lparr>cur_y := cur_y st - heading_leading st,
      cur_canvas := (cur_canvas st)\<lparr>ops := ops (cur_canvas st) @
        [SetFillColor ''#163B5A'', SetFont ''Helvetica-Bold'' (heading_size st),
         DrawString (margin d) (cur_y st) t, SetFillColor ''black'']\<rparr>\<rparr> = st4"
    by (cases st) (simp add: st4_def)
  have "draw_section sw d st sec =
      (draw_runs sw d b st4 runs)\<lparr>cur_y := cur_y (draw_runs sw d b st4 runs) -
        section_gap (draw_runs sw d b st4 runs)\<rparr>"
    by (simp add: draw_section_def sec Let_def emit_def st4_eq)
  then have "draw_section sw d st sec =
      st\<lparr>cur_canvas := (cur_canvas st)\<lparr>ops := ops (cur_canvas st) @
            [SetFillColor ''#163B5A'', SetFont ''Helvetica-Bold'' (heading_size st),
             DrawString (margin d) (cur_y st) (fst sec), SetFillColor ''black''] @ more\<rparr>,
          cur_y := y2 - section_gap st\<rparr>"
    by (simp only: runs) (cases st, simp add: st4_def sec)
  note eq = this
  have "body_size st4 = body_size st" by (simp add: st4_def)
  with m have m': "\<forall>op \<in> set more.
      (\<exists>x y t. op = DrawString x y t) \<or> op = SetFont ''Helvetica'' (body_size st)"
    by simp
  show ?thesis
    by (rule exI [of _ more], rule exI [of _ "y2 - section_gap st"], rule conjI [OF m' eq])
qed

section \<open>The header of a pass\<close>

lemma draw_header_eq:
  "draw_header d path scale st =
     \<lparr>cur_canvas = \<lparr>filename = path, pagesize = (page_width d, page_height d),
         ops = [SetTitle ''Tidum App Summary'', SetFillColor ''#132031'',
                SetFont ''Helvetica-Bold'' (24 * scale),
                DrawString (margin d) (page_height d - margin d) (doc_title d),
                SetStrokeColor ''#D8DEE9'', SetLineWidth 1,
                Line (margin d) (page_height d - margin d - 28 * scale + 4)
                     (page_width d - margin d) (page_height d - margin d - 28 * scale + 4)]\<rparr>,
      cur_y = page_height d - margin d - 28 * scale - 8 * scale - 1 * scale,
      title_size = 24 * scale, heading_size = 13.5 * scale, body_size = 11.0 * scale,
      title_leading = 28 * scale, heading_leading = 17 * scale, body_leading = 13.6 * scale,
      section_gap = 8 * scale, cur_overflow = False\<rparr>"
  by (cases st) (simp add: draw_header_def Let_def emit_def new_canvas_def)

lemma draw_header_any: "draw_header d path scale st = draw_header d path scale st'"
  by (simp only: draw_header_eq)

lemma scale_attempt_prev:
  "scale_attempt sw d path prev scale = scale_attempt sw d path None scale"
  by (simp only: scale_attempt_def Let_def draw_header_eq)

section \<open>The sections of a pass\<close>

lemma draw_section_added:
  "\<exists>more y'.
     draw_section sw d st sec =
       st\<lparr>cur_canvas := (cur_canvas st)\<lparr>ops := ops (cur_canvas st) @ more\<rparr>, cur_y := y'\<rparr> \<and>
     take 4 more =
       [SetFillColor ''#163B5A'', SetFont ''Helvetica-Bold'' (heading_size st),
        DrawString (margin d) (cur_y st) (fst sec), SetFillColor ''black''] \<and>
     length (filter is_section_start more) = 1 \<and>
     (\<forall>op \<in> set more.
        (\<exists>x y t. op = DrawString x y t) \<or> op = SetFont ''Helvetica'' (body_size st) \<or>
        op = SetFont ''Helvetica-Bold'' (heading_size st) \<or>
        op = SetFillColor ''#163B5A'' \<or> op = SetFillColor ''black'')"
proof -
  obtain body y' where
    b: "\<forall>op \<in> set body. (\<exists>x y t. op = DrawString x y t) \<or> op = SetFont ''Helvetica'' (body_size st)"
    and eq: "draw_section sw d st sec =
       st\<lparr>cur_canvas := (cur_canvas st)\<lparr>ops := ops (cur_canvas st) @
            [SetFillColor ''#163B5A'', SetFont ''Helvetica-Bold'' (heading_size st),
             DrawString (margin d) (cur_y st) (fst sec), SetFillColor ''black''] @ body\<rparr>,
          cur_y := y'\<rparr>"
    using draw_section_shape [of st sw d sec] by blast
  let ?head = "[SetFillColor ''#163B5A'', SetFont ''Helvetica-Bold'' (heading_size st),
             DrawString (margin d) (cur_y st) (fst sec), SetFillColor ''black'']"
  have nb: "filter is_section_start body = []"
    using b by (auto simp: filter_empty_conv is_section_start_def)
  have 1: "take 4 (?head @ body) = ?head" by simp
  have 2: "length (filter is_section_start (?head @ body)) = 1"
    by (simp add: nb is_section_start_def)
  have 3: "\<forall>op \<in> set (?head @ body).
        (\<exists>x y t. op = DrawString x y t) \<or> op = SetFont ''Helvetica'' (body_size st) \<or>
        op = SetFont ''Helvetica-Bold'' (heading_size st) \<or>
        op = SetFillColor ''#163B5A'' \<or> op = SetFillColor ''black''"
    using b by auto
  show ?thesis
    by (rule exI [of _ "?head @ body"], rule exI [of _ y'])
       (rule conjI [OF eq conjI [OF 1 conjI [OF 2 3]]])
qed

lemma layout_all_added:
  "\<exists>more y'.
     layout_all sw d st secs =
       st\<lparr>cur_canvas := (cur_canvas st)\<lparr>ops := ops (cur_canvas st) @ more\<rparr>, cur_y := y'\<rparr> \<and>
     (\<forall>sec rest. secs = sec # rest \<longrightarrow> take 4 more =
       [SetFillColor ''#163B5A'', SetFont ''Helvetica-Bold'' (heading_size st),
        DrawString (margin d) (cur_y st) (fst sec), SetFillColor ''black'']) \<and>
     length (filter is_section_start more) = length secs \<and>
     4 * length secs \<le> length more \<and>
     (\<forall>op \<in> set more.
        (\<exists>x y t. op = DrawString x y t) \<or> op = SetFont ''Helvetica'' (body_size st) \<or>
        op = SetFont ''Helvetica-Bold'' (heading_size st) \<or>
        op = SetFillColor ''#163B5A'' \<or> op = SetFillColor ''black'')"
proof (induction secs arbitrary: st)
  case Nil
  have "layout_all sw d st [] =
      st\<lparr>cur_canvas := (cur_canvas st)\<lparr>ops := ops (cur_canvas st) @ []\<rparr>, cur_y := cur_y st\<rparr>"
    by simp
  then show ?case
    by (intro exI [of _ "[]"] exI [of _ "cur_y st"]) simp
next
  case (Cons sec secs)
  obtain more1 y1 where
    eq1: "draw_section sw d st sec =
       st\<lparr>cur_canvas := (cur_canvas st)\<lparr>ops := ops (cur_canvas st) @ more1\<rparr>, cur_y := y1\<rparr>"
    and head1: "take 4 more1 =
       [SetFillColor ''#163B5A'', SetFont ''Helvetica-Bold'' (heading_size st),
        DrawString (margin d) (cur_y st) (fst sec), SetFillColor ''black'']"
    and count1: "length (filter is_section_start more1) = 1"
    and all1: "\<forall>op \<in> set more1.
        (\<exists>x y t. op = DrawString x y t) \<or> op = SetFont ''Helvetica'' (body_size st) \<or>
        op = SetFont ''Helvetica-Bold'' (heading_size st) \<or>
        op = SetFillColor ''#163B5A'' \<or> op = SetFillColor ''black''"
    using draw_section_added [of sw d st sec] by blast
  define st1 where
    "st1 = st\<lparr>cur_canvas := (cur_canvas st)\<lparr>ops := ops (cur_canvas st) @ more1\<rparr>, cur_y := y1\<rparr>"
  have step: "layout_all sw d st (sec # secs) = layout_all sw d st1 secs"
    by (simp only: layout_all.simps eq1 st1_def)
  from Cons.IH [of st1] obtain more2 y2 where ih:
    "layout_all sw d st1 secs =
       st1\<lparr>cur_canvas := (cur_canvas st1)\<lparr>ops := ops (cur_canvas st1) @ more2\<rparr>, cur_y := y2\<rparr> \<and>
     (\<forall>sec rest. secs = sec # rest \<longrightarrow> take 4 more2 =
       [SetFillColor ''#163B5A'', SetFont ''Helvetica-Bold'' (heading_size st1),
        DrawString (margin d) (cur_y st1) (fst sec), SetFillColor ''black'']) \<and>
     length (filter is_section_start more2) = length secs \<and>
     4 * length secs \<le> length more2 \<and>
     (\<forall>op \<in> set more2.
        (\<exists>x y t. op = DrawString x y t) \<or> op = SetFont ''Helvetica'' (body_size st1) \<or>
        op = SetFont ''Helvetica-Bold'' (heading_size st1) \<or>
        op = SetFillColor ''#163B5A'' \<or> op = SetFillColor ''black'')"
    by (elim exE) (rule that, assumption)
  note eq2 = ih [THEN conjunct1]
  note count2 = ih [THEN conjunct2, THEN conjunct2, THEN conjunct1]
  note len2 = ih [THEN conjunct2, THEN conjunct2, THEN conjunct2, THEN conjunct1]
  note all2 = ih [THEN conjunct2, THEN conjunct2, THEN conjunct2, THEN conjunct2]
  have sizes: "body_size st1 = body_size st" "heading_size st1 = heading_size st"
    by (simp_all add: st1_def)
  have "length (take 4 more1) = 4" by (simp only: head1) simp
  then have len1: "4 \<le> length more1" by simp
  have eq: "layout_all sw d st (sec # secs) =
      st\<lparr>cur_canvas := (cur_canvas st)\<lparr>ops := ops (cur_canvas st) @ (more1 @ more2)\<rparr>,
         cur_y := y2\<rparr>"
    by (simp only: step eq2) (simp add: st1_def)
  have head: "\<forall>s rest. sec # secs = s # rest \<longrightarrow> take 4 (more1 @ more2) =
       [SetFillColor ''#163B5A'', SetFont ''Helvetica-Bold'' (heading_size st),
        DrawString (margin d) (cur_y st) (fst s), SetFillColor ''black'']"
    using head1 len1 by simp
  have count: "length (filter is_section_start (more1 @ more2)) = length (sec # secs)"
    using count1 count2 by simp
  have len: "4 * length (sec # secs) \<le> length (more1 @ more2)"
    using len1 len2 by simp
  have all: "\<forall>op \<in> set (more1 @ more2).
        (\<exists>x y t. op = DrawString x y t) \<or> op = SetFont ''Helvetica'' (body_size st) \<or>
        op = SetFont ''Helvetica-Bold'' (heading_size st) \<or>
        op = SetFillColor ''#163B5A'' \<or> op = SetFillColor ''black''"
    using all1 all2 sizes by auto
  show ?case
    by (rule exI [of _ "more1 @ more2"], rule exI [of _ y2])
       (rule conjI [OF eq conjI [OF head conjI [OF count conjI [OF len all]]]])
qed

lemma layout_all_append:
  "layout_all sw d st (pre @ post) = layout_all sw d (layout_all sw d st pre) post"
  by (induction pre arbitrary: st) simp_all

text \<open>
  The section loop lays out the sections up to the first one that leaves the cursor
  below \<open>margin + 8\<close>, that one included, or all of them when there is none.
\<close>

lemma section_loop_cases:
  "(section_loop sw d st secs = layout_all sw d st secs \<and>
      (\<forall>p. p \<noteq> [] \<and> prefix p secs \<longrightarrow> \<not> cur_y (layout_all sw d st p) < margin d + 8)) \<or>
   (\<exists>pre post. secs = pre @ post \<and> pre \<noteq> [] \<and>
      cur_y (layout_all sw d st pre) < margin d + 8 \<and>
      (\<forall>p. p \<noteq> [] \<and> strict_prefix p pre \<longrightarrow> \<not> cur_y (layout_all sw d st p) < margin d + 8) \<and>
      section_loop sw d st secs = (layout_all sw d st pre)\<lparr>cur_overflow := True\<rparr>)"
proof (induction secs arbitrary: st)
  case Nil
  show ?case by simp
next
  case (Cons sec secs)
  define st1 where "st1 = draw_section sw d st sec"
  show ?case
  proof (cases "cur_y st1 < margin d + 8")
    case True
    have "sec # secs = [sec] @ secs \<and> [sec] \<noteq> [] \<and>
      cur_y (layout_all sw d st [sec]) < margin d + 8 \<and>
      (\<forall>p. p \<noteq> [] \<and> strict_prefix p [sec] \<longrightarrow> \<not> cur_y (layout_all sw d st p) < margin d + 8) \<and>
      section_loop sw d st (sec # secs) = (layout_all sw d st [sec])\<lparr>cur_overflow := True\<rparr>"
      using True by (auto simp: st1_def Let_def strict_prefix_def prefix_Cons)
    then show ?thesis by blast
  next
    case False
    have loop: "section_loop sw d st (sec # secs) = section_loop sw d st1 secs"
      using False by (simp add: st1_def Let_def)
    have lay: "layout_all sw d st (sec # q) = layout_all sw d st1 q" for q
      by (simp add: st1_def)
    from Cons.IH [of st1] show ?thesis
    proof
      assume a: "section_loop sw d st1 secs = layout_all sw d st1 secs \<and>
        (\<forall>p. p \<noteq> [] \<and> prefix p secs \<longrightarrow> \<not> cur_y (layout_all sw d st1 p) < margin d + 8)"
      have "\<not> cur_y (layout_all sw d st p) < margin d + 8"
        if p: "p \<noteq> []" "prefix p (sec # secs)" for p
      proof -
        from p obtain q where q: "p = sec # q" "prefix q secs"
          by (auto simp: prefix_Cons)
        show ?thesis
        proof (cases "q = []")
          case True
          with q False show ?thesis by (simp add: st1_def)
        next
          case False
          with a q have "\<not> cur_y (layout_all sw d st1 q) < margin d + 8" by blast
          then show ?thesis by (simp only: q(1) lay simp_thms)
        qed
      qed
      moreover have "section_loop sw d st (sec # secs) = layout_all sw d st (sec # secs)"
        using a by (simp only: loop lay)
      ultimately show ?thesis by blast
    next
      assume "\<exists>pre post. secs = pre @ post \<and> pre \<noteq> [] \<and>
        cur_y (layout_all sw d st1 pre) < margin d + 8 \<and>
        (\<forall>p. p \<noteq> [] \<and> strict_prefix p pre \<longrightarrow> \<not> cur_y (layout_all sw d st1 p) < margin d + 8) \<and>
        section_loop sw d st1 secs = (layout_all sw d st1 pre)\<lparr>cur_overflow := True\<rparr>"
      then obtain pre post where secs: "secs = pre @ post" and ne: "pre \<noteq> []"
        and over: "cur_y (layout_all sw d st1 pre) < margin d + 8"
        and before: "\<forall>p. p \<noteq> [] \<and> strict_prefix p pre \<longrightarrow>
          \<not> cur_y (layout_all sw d st1 p) < margin d + 8"
        and res: "section_loop sw d st1 secs = (layout_all sw d st1 pre)\<lparr>cur_overflow := True\<rparr>"
        by blast
      have b': "\<not> cur_y (layout_all sw d st p) < margin d + 8"
        if p: "p \<noteq> []" "strict_prefix p (sec # pre)" for p
      proof -
        from p obtain q where q: "p = sec # q" "strict_prefix q pre"
          by (cases p) auto
        show ?thesis
        proof (cases "q = []")
          case True
          with q False show ?thesis by (simp add: st1_def)
        next
          case False
          with before q have "\<not> cur_y (layout_all sw d st1 q) < margin d + 8" by blast
          then show ?thesis by (simp only: q(1) lay simp_thms)
        qed
      qed
      have r: "section_loop sw d st (sec # secs) =
          (layout_all sw d st (sec # pre))\<lparr>cur_overflow := True\<rparr>"
        by (simp only: loop lay res)
      have o: "cur_y (layout_all sw d st (sec # pre)) < margin d + 8"
        using over by (simp only: lay)
      have s: "sec # secs = (sec # pre) @ post" by (simp add: secs)
      have "sec # secs = (sec # pre) @ post \<and> sec # pre \<noteq> [] \<and>
        cur_y (layout_all sw d st (sec # pre)) < margin d + 8 \<and>
        (\<forall>p. p \<noteq> [] \<and> strict_prefix p (sec # pre) \<longrightarrow>
          \<not> cur_y (layout_all sw d st p) < margin d + 8) \<and>
        section_loop sw d st (sec # secs) =
          (layout_all sw d st (sec # pre))\<lparr>cur_overflow := True\<rparr>"
        using s o b' r by blast
      then show ?thesis by blast
    qed
  qed
qed

lemma layout_all_fields:
  "cur_overflow (layout_all sw d st secs) = cur_overflow st \<and>
   filename (cur_canvas (layout_all sw d st secs)) = filename (cur_canvas st) \<and>
   pagesize (cur_canvas (layout_all sw d st secs)) = pagesize (cur_canvas st)"
proof -
  obtain more y' where "layout_all sw d st secs =
       st\<lparr>cur_canvas := (cur_canvas st)\<lparr>ops := ops (cur_canvas st) @ more\<rparr>, cur_y := y'\<rparr>"
    using layout_all_added [of sw d st secs] by (elim exE conjE) (rule that)
  then show ?thesis by simp
qed

section \<open>A pass and the complete layout\<close>

lemma scale_attempt_eq:
  "scale_attempt sw d path prev scale =
     section_loop sw d (draw_header d path scale entry_locals) (sections d)"
  by (simp only: scale_attempt_def Let_def draw_header_eq simp_thms)

lemma full_layout_eq:
  "full_layout sw d path scale secs =
     (cur_canvas (layout_all sw d (draw_header d path scale entry_locals) secs),
      cur_y (layout_all sw d (draw_header d path scale entry_locals) secs))"
  by (simp only: full_layout_def Let_def simp_thms)

lemma header_overflow: "\<not> cur_overflow (draw_header d path scale st)"
  by (simp add: draw_header_eq)

lemma scale_attempt_overflow_iff:
  "cur_overflow (scale_attempt sw d path prev scale) \<longleftrightarrow>
   (\<exists>p. p \<noteq> [] \<and> prefix p (sections d) \<and>
        snd (full_layout sw d path scale p) < margin d + 8)"
proof -
  let ?h = "draw_header d path scale entry_locals"
  have no: "\<not> cur_overflow (layout_all sw d ?h p)" for p
    using layout_all_fields [of sw d ?h p] header_overflow [of d path scale entry_locals]
    by simp
  from section_loop_cases [of sw d ?h "sections d"] show ?thesis
  proof
    assume a: "section_loop sw d ?h (sections d) = layout_all sw d ?h (sections d) \<and>
      (\<forall>p. p \<noteq> [] \<and> prefix p (sections d) \<longrightarrow> \<not> cur_y (layout_all sw d ?h p) < margin d + 8)"
    then have "\<not> cur_overflow (scale_attempt sw d path prev scale)"
      using no [of "sections d"] by (simp only: scale_attempt_eq simp_thms)
    moreover have "\<not> (\<exists>p. p \<noteq> [] \<and> prefix p (sections d) \<and>
        snd (full_layout sw d path scale p) < margin d + 8)"
      using a by (simp only: full_layout_eq snd_conv simp_thms) blast
    ultimately show ?thesis by blast
  next
    assume "\<exists>pre post. sections d = pre @ post \<and> pre \<noteq> [] \<and>
      cur_y (layout_all sw d ?h pre) < margin d + 8 \<and>
      (\<forall>p. p \<noteq> [] \<and> strict_prefix p pre \<longrightarrow> \<not> cur_y (layout_all sw d ?h p) < margin d + 8) \<and>
      section_loop sw d ?h (sections d) = (layout_all sw d ?h pre)\<lparr>cur_overflow := True\<rparr>"
    then obtain pre post where s: "sections d = pre @ post" and ne: "pre \<noteq> []"
      and over: "cur_y (layout_all sw d ?h pre) < margin d + 8"
      and res: "section_loop sw d ?h (sections d) = (layout_all sw d ?h pre)\<lparr>cur_overflow := True\<rparr>"
      by blast
    have "cur_overflow (scale_attempt sw d path prev scale)"
      by (simp only: scale_attempt_eq res simp_thms) simp
    moreover have "prefix pre (sections d)" by (simp add: s)
    then have "\<exists>p. p \<noteq> [] \<and> prefix p (sections d) \<and>
        snd (full_layout sw d path scale p) < margin d + 8"
      using ne over by (simp only: full_layout_eq snd_conv simp_thms) blast
    ultimately show ?thesis by blast
  qed
qed

lemma scale_attempt_fits_layout:
  assumes "\<not> cur_overflow (scale_attempt sw d path prev scale)"
  shows "cur_canvas (scale_attempt sw d path prev scale) =
         fst (full_layout sw d path scale (sections d))"
proof -
  let ?h = "draw_header d path scale entry_locals"
  from section_loop_cases [of sw d ?h "sections d"]
  have "section_loop sw d ?h (sections d) = layout_all sw d ?h (sections d)"
  proof
    assume "section_loop sw d ?h (sections d) = layout_all sw d ?h (sections d) \<and>
      (\<forall>p. p \<noteq> [] \<and> prefix p (sections d) \<longrightarrow> \<not> cur_y (layout_all sw d ?h p) < margin d + 8)"
    then show ?thesis by (rule conjunct1)
  next
    assume "\<exists>pre post. sections d = pre @ post \<and> pre \<noteq> [] \<and>
      cur_y (layout_all sw d ?h pre) < margin d + 8 \<and>
      (\<forall>p. p \<noteq> [] \<and> strict_prefix p pre \<longrightarrow> \<not> cur_y (layout_all sw d ?h p) < margin d + 8) \<and>
      section_loop sw d ?h (sections d) = (layout_all sw d ?h pre)\<lparr>cur_overflow := True\<rparr>"
    then obtain pre where
      "section_loop sw d ?h (sections d) = (layout_all sw d ?h pre)\<lparr>cur_overflow := True\<rparr>"
      by blast
    then have "cur_overflow (scale_attempt sw d path prev scale)"
      by (simp only: scale_attempt_eq simp_thms) simp
    with assms show ?thesis by simp
  qed
  then show ?thesis by (simp only: scale_attempt_eq full_layout_eq fst_conv simp_thms)
qed

text \<open>
  A pass that overflows leaves the complete layout of the sections up to the first
  overflowing one, and nothing of the later sections.
\<close>

lemma scale_attempt_truncated:
  assumes "cur_overflow (scale_attempt sw d path prev scale)"
  shows "\<exists>pre post. sections d = pre @ post \<and> pre \<noteq> [] \<and>
      snd (full_layout sw d path scale pre) < margin d + 8 \<and>
      (\<forall>p. p \<noteq> [] \<and> strict_prefix p pre \<longrightarrow>
         \<not> snd (full_layout sw d path scale p) < margin d + 8) \<and>
      cur_canvas (scale_attempt sw d path prev scale) = fst (full_layout sw d path scale pre)"
proof -
  let ?h = "draw_header d path scale entry_locals"
  from section_loop_cases [of sw d ?h "sections d"] show ?thesis
  proof
    assume "section_loop sw d ?h (sections d) = layout_all sw d ?h (sections d) \<and>
      (\<forall>p. p \<noteq> [] \<and> prefix p (sections d) \<longrightarrow> \<not> cur_y (layout_all sw d ?h p) < margin d + 8)"
    then have "section_loop sw d ?h (sections d) = layout_all sw d ?h (sections d)"
      by (rule conjunct1)
    then have "cur_overflow (scale_attempt sw d path prev scale) =
        cur_overflow (layout_all sw d ?h (sections d))"
      by (simp only: scale_attempt_eq simp_thms)
    with assms layout_all_fields [of sw d ?h "sections d"]
      header_overflow [of d path scale entry_locals]
    show ?thesis by simp
  next
    assume "\<exists>pre post. sections d = pre @ post \<and> pre \<noteq> [] \<and>
      cur_y (layout_all sw d ?h pre) < margin d + 8 \<and>
      (\<forall>p. p \<noteq> [] \<and> strict_prefix p pre \<longrightarrow> \<not> cur_y (layout_all sw d ?h p) < margin d + 8) \<and>
      section_loop sw d ?h (sections d) = (layout_all sw d ?h pre)\<lparr>cur_overflow := True\<rparr>"
    then obtain pre post where s: "sections d = pre @ post" and ne: "pre \<noteq> []"
      and over: "cur_y (layout_all sw d ?h pre) < margin d + 8"
      and before: "\<forall>p. p \<noteq> [] \<and> strict_prefix p pre \<longrightarrow>
        \<not> cur_y (layout_all sw d ?h p) < margin d + 8"
      and res: "section_loop sw d ?h (sections d) = (layout_all sw d ?h pre)\<lparr>cur_overflow := True\<rparr>"
      by blast
    have c: "cur_canvas (scale_attempt sw d path prev scale) = fst (full_layout sw d path scale pre)"
      by (simp only: scale_attempt_eq res full_layout_eq fst_conv simp_thms) simp
    have o: "snd (full_layout sw d path scale pre) < margin d + 8"
      using over by (simp only: full_layout_eq snd_conv simp_thms)
    have b: "\<forall>p. p \<noteq> [] \<and> strict_prefix p pre \<longrightarrow>
        \<not> snd (full_layout sw d path scale p) < margin d + 8"
      using before by (simp only: full_layout_eq snd_conv simp_thms)
    from s ne o b c show ?thesis by blast
  qed
qed

lemma filename_scale_attempt: "filename (cur_canvas (scale_attempt sw d path prev scale)) = path"
proof -
  let ?h = "draw_header d path scale entry_locals"
  have h: "filename (cur_canvas ?h) = path" by (simp add: draw_header_eq)
  from section_loop_cases [of sw d ?h "sections d"]
  have "\<exists>secs. cur_canvas (section_loop sw d ?h (sections d)) = cur_canvas (layout_all sw d ?h secs)"
  proof
    assume "section_loop sw d ?h (sections d) = layout_all sw d ?h (sections d) \<and>
      (\<forall>p. p \<noteq> [] \<and> prefix p (sections d) \<longrightarrow> \<not> cur_y (layout_all sw d ?h p) < margin d + 8)"
    then have "cur_canvas (section_loop sw d ?h (sections d)) =
        cur_canvas (layout_all sw d ?h (sections d))" by simp
    then show ?thesis by (rule exI)
  next
    assume "\<exists>pre post. sections d = pre @ post \<and> pre \<noteq> [] \<and>
      cur_y (layout_all sw d ?h pre) < margin d + 8 \<and>
      (\<forall>p. p \<noteq> [] \<and> strict_prefix p pre \<longrightarrow> \<not> cur_y (layout_all sw d ?h p) < margin d + 8) \<and>
      section_loop sw d ?h (sections d) = (layout_all sw d ?h pre)\<lparr>cur_overflow := True\<rparr>"
    then obtain pre where
      "section_loop sw d ?h (sections d) = (layout_all sw d ?h pre)\<lparr>cur_overflow := True\<rparr>"
      by blast
    then have "cur_canvas (section_loop sw d ?h (sections d)) = cur_canvas (layout_all sw d ?h pre)"
      by simp
    then show ?thesis by (rule exI)
  qed
  then obtain secs where
    "cur_canvas (section_loop sw d ?h (sections d)) = cur_canvas (layout_all sw d ?h secs)" ..
  with layout_all_fields [of sw d ?h secs] h show ?thesis
    by (simp only: scale_attempt_eq simp_thms)
qed

lemma save_scale_attempt:
  "save (cur_canvas (scale_attempt sw d path prev scale)) fs =
     fs(path \<mapsto> cur_canvas (scale_attempt sw d path prev scale))"
  by (simp add: save_def filename_scale_attempt)

section \<open>The scale loop\<close>

lemma scale_loop_prev:
  "scale_loop sw d path prev fs scales = scale_loop sw d path None fs scales"
proof (cases scales)
  case Nil
  then show ?thesis by simp
next
  case (Cons s rest)
  then show ?thesis
    using scale_attempt_prev [of sw d path prev s] by (simp add: Let_def)
qed

lemma scale_loop_step:
  "scale_loop sw d path prev fs (s # rest) =
     (if \<not> cur_overflow (scale_attempt sw d path None s)
      then ((), fs(path \<mapsto> cur_canvas (scale_attempt sw d path None s)))
      else scale_loop sw d path (Some (scale_attempt sw d path None s))
             (fs(path \<mapsto> cur_canvas (scale_attempt sw d path None s))) rest)"
  by (simp only: scale_loop.simps Let_def scale_attempt_prev [of sw d path prev s]
      save_scale_attempt)

lemma scale_loop_first_fit:
  assumes "\<forall>t \<in> set pre. cur_overflow (scale_attempt sw d path None t)"
    and "\<not> cur_overflow (scale_attempt sw d path None s)"
  shows "scale_loop sw d path prev fs (pre @ s # post) =
         ((), fs(path \<mapsto> cur_canvas (scale_attempt sw d path None s)))"
  using assms(1)
proof (induction pre arbitrary: prev fs)
  case Nil
  show ?case
    using assms(2) by (simp only: append_Nil append_Cons scale_loop_step simp_thms if_True if_False)
next
  case (Cons t pre)
  from Cons.prems have t: "cur_overflow (scale_attempt sw d path None t)"
    and rest: "\<forall>u \<in> set pre. cur_overflow (scale_attempt sw d path None u)" by simp_all
  have "scale_loop sw d path prev fs ((t # pre) @ s # post) =
      scale_loop sw d path (Some (scale_attempt sw d path None t))
        (fs(path \<mapsto> cur_canvas (scale_attempt sw d path None t))) (pre @ s # post)"
    using t by (simp only: append_Nil append_Cons scale_loop_step simp_thms if_True if_False)
  also have "\<dots> = ((), (fs(path \<mapsto> cur_canvas (scale_attempt sw d path None t)))
      (path \<mapsto> cur_canvas (scale_attempt sw d path None s)))"
    using rest by (rule Cons.IH)
  finally show ?case by (simp only: fun_upd_upd)
qed

lemma scale_loop_all_overflow:
  assumes "scales \<noteq> []"
    and "\<forall>t \<in> set scales. cur_overflow (scale_attempt sw d path None t)"
  shows "scale_loop sw d path prev fs scales =
         ((), fs(path \<mapsto> cur_canvas (scale_attempt sw d path None (last scales))))"
  using assms
proof (induction scales arbitrary: prev fs)
  case Nil
  then show ?case by simp
next
  case (Cons t rest)
  from Cons.prems(2) have t: "cur_overflow (scale_attempt sw d path None t)"
    and others: "\<forall>u \<in> set rest. cur_overflow (scale_attempt sw d path None u)" by simp_all
  have step: "scale_loop sw d path prev fs (t # rest) =
      scale_loop sw d path (Some (scale_attempt sw d path None t))
        (fs(path \<mapsto> cur_canvas (scale_attempt sw d path None t))) rest"
    using t by (simp only: append_Nil append_Cons scale_loop_step simp_thms if_True if_False)
  show ?case
  proof (cases "rest = []")
    case True
    with step show ?thesis
      by (simp only: scale_loop.simps(1) last.simps simp_thms if_True)
  next
    case False
    then have "scale_loop sw d path (Some (scale_attempt sw d path None t))
        (fs(path \<mapsto> cur_canvas (scale_attempt sw d path None t))) rest =
      ((), (fs(path \<mapsto> cur_canvas (scale_attempt sw d path None t)))
        (path \<mapsto> cur_canvas (scale_attempt sw d path None (last rest))))"
      using others by (rule Cons.IH)
    with step False show ?thesis
      by (simp only: fun_upd_upd last.simps simp_thms if_False)
  qed
qed

lemma scale_loop_result:
  "scales \<noteq> [] \<Longrightarrow>
   \<exists>s \<in> set scales. \<forall>prev fs. scale_loop sw d path prev fs scales =
     ((), fs(path \<mapsto> cur_canvas (scale_attempt sw d path None s)))"
proof (cases "\<forall>t \<in> set scales. cur_overflow (scale_attempt sw d path None t)")
  case True
  assume ne: "scales \<noteq> []"
  then have "last scales \<in> set scales" by simp
  moreover have "\<forall>prev fs. scale_loop sw d path prev fs scales =
     ((), fs(path \<mapsto> cur_canvas (scale_attempt sw d path None (last scales))))"
    using scale_loop_all_overflow [OF ne True] by blast
  ultimately show ?thesis by blast
next
  case False
  then obtain pre s post where sp: "scales = pre @ s # post"
    and s: "\<not> cur_overflow (scale_attempt sw d path None s)"
    and pre: "\<forall>t \<in> set pre. cur_overflow (scale_attempt sw d path None t)"
    using split_list_first_prop [of scales "\<lambda>t. \<not> cur_overflow (scale_attempt sw d path None t)"]
    by auto
  have "\<forall>prev fs. scale_loop sw d path prev fs scales =
     ((), fs(path \<mapsto> cur_canvas (scale_attempt sw d path None s)))"
    using scale_loop_first_fit [OF pre s] sp by blast
  moreover have "s \<in> set scales" using sp by simp
  ultimately show ?thesis by blast
qed

lemmas run_defs = scale_attempt_def draw_header_def draw_section_def
  draw_bullet_def draw_paragraph_def wrap_text_def full_layout_def
  py_split_def isspace_def mono_width_def emit_def new_canvas_def Let_def
  content_width_def entry_locals_def

section \<open>Claims on the scale-fit driver\<close>

text \<open>
  C1, as amended. For every list of scale candidates, the driver tries them in order
  and leaves saved the layout of the earliest candidate whose pass does not overflow;
  no later candidate is chosen. That layout is the complete layout of all sections at
  that scale. A pass overflows when, after some section, the cursor is below
  \<open>margin + 8\<close>: the test keeps 8 units above the bottom margin, it is not a test
  against the page height minus the margin.
\<close>

theorem first_fitting_scale:
  assumes "scales = pre @ s # post"
    and "\<forall>t \<in> set pre. cur_overflow (scale_attempt sw d path None t)"
    and "\<not> cur_overflow (scale_attempt sw d path None s)"
  shows "snd (scale_loop sw d path prev fs scales) =
           fs(path \<mapsto> cur_canvas (scale_attempt sw d path None s)) \<and>
         cur_canvas (scale_attempt sw d path None s) =
           fst (full_layout sw d path s (sections d)) \<and>
         (\<forall>t. cur_overflow (scale_attempt sw d path None t) \<longleftrightarrow>
            (\<exists>p. p \<noteq> [] \<and> prefix p (sections d) \<and>
                 snd (full_layout sw d path t p) < margin d + 8))"
proof (intro conjI allI)
  show "snd (scale_loop sw d path prev fs scales) =
      fs(path \<mapsto> cur_canvas (scale_attempt sw d path None s))"
    using scale_loop_first_fit [OF assms(2,3), of prev fs post] assms(1) by simp
  show "cur_canvas (scale_attempt sw d path None s) = fst (full_layout sw d path s (sections d))"
    using assms(3) by (rule scale_attempt_fits_layout)
  show "cur_overflow (scale_attempt sw d path None t) \<longleftrightarrow>
      (\<exists>p. p \<noteq> [] \<and> prefix p (sections d) \<and> snd (full_layout sw d path t p) < margin d + 8)"
    for t by (rule scale_attempt_overflow_iff)
qed

theorem first_fitting_scale_witness:
  "[1, 0.5] = [1] @ 0.5 # [] \<and>
   cur_overflow (scale_attempt mono_width doc_small ''out.pdf'' None 1) \<and>
   \<not> cur_overflow (scale_attempt mono_width doc_small ''out.pdf'' None 0.5) \<and>
   snd (scale_loop mono_width doc_small ''out.pdf'' None Map.empty [1, 0.5]) =
     [''out.pdf'' \<mapsto> cur_canvas (scale_attempt mono_width doc_small ''out.pdf'' None 0.5)] \<and>
   ops (cur_canvas (scale_attempt mono_width doc_small ''out.pdf'' None 0.5)) =
     [SetTitle ''Tidum App Summary'', SetFillColor ''#132031'',
      SetFont ''Helvetica-Bold'' 12, DrawString 10 89.6 ''T'',
      SetStrokeColor ''#D8DEE9'', SetLineWidth 1, Line 10 79.6 90 79.6,
      SetFillColor ''#163B5A'', SetFont ''Helvetica-Bold'' 6.75,
      DrawString 10 71.1 ''A'', SetFillColor ''black'',
      SetFont ''Helvetica'' 5.5, DrawString 10 62.6 ''x'']"
proof -
  have l: "[1, 0.5] = [1] @ 0.5 # ([]::real list)" by simp
  have o1: "\<forall>t \<in> set [1]. cur_overflow (scale_attempt mono_width doc_small ''out.pdf'' None t)"
    by (simp add: run_defs doc_small_def)
  have o2: "\<not> cur_overflow (scale_attempt mono_width doc_small ''out.pdf'' None 0.5)"
    by (simp add: run_defs doc_small_def)
  have c: "ops (cur_canvas (scale_attempt mono_width doc_small ''out.pdf'' None 0.5)) =
     [SetTitle ''Tidum App Summary'', SetFillColor ''#132031'',
      SetFont ''Helvetica-Bold'' 12, DrawString 10 89.6 ''T'',
      SetStrokeColor ''#D8DEE9'', SetLineWidth 1, Line 10 79.6 90 79.6,
      SetFillColor ''#163B5A'', SetFont ''Helvetica-Bold'' 6.75,
      DrawString 10 71.1 ''A'', SetFillColor ''black'',
      SetFont ''Helvetica'' 5.5, DrawString 10 62.6 ''x'']"
    by (simp add: run_defs doc_small_def)
  from first_fitting_scale [OF l o1 o2, of None Map.empty]
  have "snd (scale_loop mono_width doc_small ''out.pdf'' None Map.empty [1, 0.5]) =
     [''out.pdf'' \<mapsto> cur_canvas (scale_attempt mono_width doc_small ''out.pdf'' None 0.5)]"
    by (rule conjunct1)
  with l o1 o2 c show ?thesis by simp
qed

text \<open>
  C1 as stated fails: on a page of height 99.6 with margin 10, the complete layout
  at scale 1 ends with the cursor at 14, above the bottom margin, so its height is
  within the page height minus the margin; the driver still passes scale 1 over and
  leaves the layout of scale 0.5.
\<close>

theorem first_fitting_scale_counterexample:
  "snd (full_layout mono_width doc_small ''out.pdf'' 1 (sections doc_small)) = 14 \<and>
   margin doc_small \<le> 14 \<and>
   page_height doc_small - 14 \<le> page_height doc_small - margin doc_small \<and>
   snd (scale_loop mono_width doc_small ''out.pdf'' None Map.empty [1, 0.5]) ''out.pdf'' =
     Some (cur_canvas (scale_attempt mono_width doc_small ''out.pdf'' None 0.5)) \<and>
   cur_canvas (scale_attempt mono_width doc_small ''out.pdf'' None 0.5) \<noteq>
     fst (full_layout mono_width doc_small ''out.pdf'' 1 (sections doc_small))"
  by (simp add: run_defs doc_small_def save_def)

text \<open>
  C4, as amended. When the pass of every scale candidate overflows, the driver does
  not fail: it returns, leaving saved the layout that the pass of the last (smallest)
  candidate computed. It returns the unit value, as it does when a candidate fits:
  no flag tells the caller whether a fit was achieved.
\<close>

theorem all_overflow_keeps_last:
  assumes "scales \<noteq> []"
    and "\<forall>t \<in> set scales. cur_overflow (scale_attempt sw d path None t)"
  shows "scale_loop sw d path prev fs scales =
         ((), fs(path \<mapsto> cur_canvas (scale_attempt sw d path None (last scales))))"
  using assms by (rule scale_loop_all_overflow)

theorem all_overflow_keeps_last_witness:
  "[1.1, 1] \<noteq> ([]::real list) \<and>
   cur_overflow (scale_attempt mono_width doc_three ''out.pdf'' None 1.1) \<and>
   cur_overflow (scale_attempt mono_width doc_three ''out.pdf'' None 1) \<and>
   scale_loop mono_width doc_three ''out.pdf'' None Map.empty [1.1, 1] =
     ((), [''out.pdf'' \<mapsto> cur_canvas (scale_attempt mono_width doc_three ''out.pdf'' None 1)])"
proof -
  have ne: "[1.1, 1] \<noteq> ([]::real list)" by simp
  have o1: "cur_overflow (scale_attempt mono_width doc_three ''out.pdf'' None 1.1)"
    by (simp add: run_defs doc_three_def)
  have o2: "cur_overflow (scale_attempt mono_width doc_three ''out.pdf'' None 1)"
    by (simp add: run_defs doc_three_def)
  from o1 o2
  have all: "\<forall>t \<in> set [1.1, 1]. cur_overflow (scale_attempt mono_width doc_three ''out.pdf'' None t)"
    by simp
  from all_overflow_keeps_last [OF ne all, of None Map.empty] ne o1 o2
  show ?thesis by simp
qed

text \<open>
  C4 as stated fails: the value returned when every candidate overflows is the value
  returned when a candidate fits, so it carries no \<open>fitAchieved = false\<close>.
\<close>

theorem all_overflow_keeps_last_counterexample:
  "cur_overflow (scale_attempt mono_width doc_three ''out.pdf'' None 1.1) \<and>
   cur_overflow (scale_attempt mono_width doc_three ''out.pdf'' None 1) \<and>
   \<not> cur_overflow (scale_attempt mono_width doc_small ''out.pdf'' None 0.5) \<and>
   fst (scale_loop mono_width doc_three ''out.pdf'' None Map.empty [1.1, 1]) =
   fst (scale_loop mono_width doc_small ''out.pdf'' None Map.empty [1, 0.5])"
  by (simp add: run_defs doc_three_def doc_small_def)

section \<open>What a pass leaves on its canvas\<close>

lemma full_layout_ops:
  "\<exists>more.
     ops (fst (full_layout sw d path scale secs)) =
       [SetTitle ''Tidum App Summary'', SetFillColor ''#132031'',
        SetFont ''Helvetica-Bold'' (24 * scale),
        DrawString (margin d) (page_height d - margin d) (doc_title d),
        SetStrokeColor ''#D8DEE9'', SetLineWidth 1,
        Line (margin d) (page_height d - margin d - 28 * scale + 4)
             (page_width d - margin d) (page_height d - margin d - 28 * scale + 4)] @ more \<and>
     (\<forall>sec rest. secs = sec # rest \<longrightarrow> take 4 more =
       [SetFillColor ''#163B5A'', SetFont ''Helvetica-Bold'' (13.5 * scale),
        DrawString (margin d) (page_height d - margin d - 28 * scale - 8 * scale - 1 * scale)
          (fst sec),
        SetFillColor ''black'']) \<and>
     length (filter is_section_start more) = length secs \<and>
     4 * length secs \<le> length more \<and>
     list_all (scaled_font scale) more"
proof -
  let ?h = "draw_header d path scale entry_locals"
  from layout_all_added [of sw d ?h secs] obtain more y' where a:
    "layout_all sw d ?h secs =
       ?h\<lparr>cur_canvas := (cur_canvas ?h)\<lparr>ops := ops (cur_canvas ?h) @ more\<rparr>, cur_y := y'\<rparr> \<and>
     (\<forall>sec rest. secs = sec # rest \<longrightarrow> take 4 more =
       [SetFillColor ''#163B5A'', SetFont ''Helvetica-Bold'' (heading_size ?h),
        DrawString (margin d) (cur_y ?h) (fst sec), SetFillColor ''black'']) \<and>
     length (filter is_section_start more) = length secs \<and>
     4 * length secs \<le> length more \<and>
     (\<forall>op \<in> set more.
        (\<exists>x y t. op = DrawString x y t) \<or> op = SetFont ''Helvetica'' (body_size ?h) \<or>
        op = SetFont ''Helvetica-Bold'' (heading_size ?h) \<or>
        op = SetFillColor ''#163B5A'' \<or> op = SetFillColor ''black'')"
    by (elim exE) (rule that, assumption)
  note eq = a [THEN conjunct1]
  note head = a [THEN conjunct2, THEN conjunct1]
  note count = a [THEN conjunct2, THEN conjunct2, THEN conjunct1]
  note len = a [THEN conjunct2, THEN conjunct2, THEN conjunct2, THEN conjunct1]
  note all = a [THEN conjunct2, THEN conjunct2, THEN conjunct2, THEN conjunct2]
  have 1: "ops (fst (full_layout sw d path scale secs)) =
       [SetTitle ''Tidum App Summary'', SetFillColor ''#132031'',
        SetFont ''Helvetica-Bold'' (24 * scale),
        DrawString (margin d) (page_height d - margin d) (doc_title d),
        SetStrokeColor ''#D8DEE9'', SetLineWidth 1,
        Line (margin d) (page_height d - margin d - 28 * scale + 4)
             (page_width d - margin d) (page_height d - margin d - 28 * scale + 4)] @ more"
    by (simp only: full_layout_eq fst_conv eq) (simp add: draw_header_eq)
  have 2: "\<forall>sec rest. secs = sec # rest \<longrightarrow> take 4 more =
       [SetFillColor ''#163B5A'', SetFont ''Helvetica-Bold'' (13.5 * scale),
        DrawString (margin d) (page_height d - margin d - 28 * scale - 8 * scale - 1 * scale)
          (fst sec),
        SetFillColor ''black'']"
    using head by (simp add: draw_header_eq)
  have 5: "list_all (scaled_font scale) more"
    unfolding list_all_iff
  proof
    fix op assume "op \<in> set more"
    with all have "(\<exists>x y t. op = DrawString x y t) \<or> op = SetFont ''Helvetica'' (body_size ?h) \<or>
        op = SetFont ''Helvetica-Bold'' (heading_size ?h) \<or>
        op = SetFillColor ''#163B5A'' \<or> op = SetFillColor ''black''" by blast
    then show "scaled_font scale op"
      by (auto simp: draw_header_eq)
  qed
  show ?thesis
    by (rule exI [of _ more]) (rule conjI [OF 1 conjI [OF 2 conjI [OF count conjI [OF len 5]]]])
qed

lemma full_layout_grows:
  assumes "post \<noteq> []"
  shows "length (ops (fst (full_layout sw d path scale pre))) <
         length (ops (fst (full_layout sw d path scale (pre @ post))))"
proof -
  let ?h = "draw_header d path scale entry_locals"
  let ?st = "layout_all sw d ?h pre"
  from layout_all_added [of sw d ?st post] obtain more y' where a:
    "layout_all sw d ?st post =
       ?st\<lparr>cur_canvas := (cur_canvas ?st)\<lparr>ops := ops (cur_canvas ?st) @ more\<rparr>, cur_y := y'\<rparr> \<and>
     (\<forall>sec rest. post = sec # rest \<longrightarrow> take 4 more =
       [SetFillColor ''#163B5A'', SetFont ''Helvetica-Bold'' (heading_size ?st),
        DrawString (margin d) (cur_y ?st) (fst sec), SetFillColor ''black'']) \<and>
     length (filter is_section_start more) = length post \<and>
     4 * length post \<le> length more \<and>
     (\<forall>op \<in> set more.
        (\<exists>x y t. op = DrawString x y t) \<or> op = SetFont ''Helvetica'' (body_size ?st) \<or>
        op = SetFont ''Helvetica-Bold'' (heading_size ?st) \<or>
        op = SetFillColor ''#163B5A'' \<or> op = SetFillColor ''black'')"
    by (elim exE) (rule that, assumption)
  note eq = a [THEN conjunct1]
  note len = a [THEN conjunct2, THEN conjunct2, THEN conjunct2, THEN conjunct1]
  from assms have "0 < length post" by simp
  with len have pos: "0 < length more" by linarith
  have "ops (cur_canvas (layout_all sw d ?h (pre @ post))) = ops (cur_canvas ?st) @ more"
    by (simp only: layout_all_append eq) simp
  with pos show ?thesis
    by (simp only: full_layout_eq fst_conv) simp
qed

lemma full_layout_section_starts:
  "length (filter is_section_start (ops (fst (full_layout sw d path scale secs)))) = length secs"
proof -
  from full_layout_ops [of sw d path scale secs] obtain more where
    "ops (fst (full_layout sw d path scale secs)) =
       [SetTitle ''Tidum App Summary'', SetFillColor ''#132031'',
        SetFont ''Helvetica-Bold'' (24 * scale),
        DrawString (margin d) (page_height d - margin d) (doc_title d),
        SetStrokeColor ''#D8DEE9'', SetLineWidth 1,
        Line (margin d) (page_height d - margin d - 28 * scale + 4)
             (page_width d - margin d) (page_height d - margin d - 28 * scale + 4)] @ more"
    and "length (filter is_section_start more) = length secs"
    by (elim exE conjE) (rule that)
  then show ?thesis by (simp add: is_section_start_def)
qed

text \<open>The sections a pass lays out: all of them, or those up to the first overflow.\<close>

lemma scale_attempt_laid_out:
  "\<exists>secs. prefix secs (sections d) \<and> (sections d \<noteq> [] \<longrightarrow> secs \<noteq> []) \<and>
     (\<not> cur_overflow (scale_attempt sw d path prev scale) \<longrightarrow> secs = sections d) \<and>
     cur_canvas (scale_attempt sw d path prev scale) = fst (full_layout sw d path scale secs)"
proof (cases "cur_overflow (scale_attempt sw d path prev scale)")
  case True
  from scale_attempt_truncated [OF True] obtain pre post where
    "sections d = pre @ post" "pre \<noteq> []"
    "cur_canvas (scale_attempt sw d path prev scale) = fst (full_layout sw d path scale pre)"
    by blast
  with True show ?thesis by (intro exI [of _ pre]) simp
next
  case False
  from scale_attempt_fits_layout [OF False] False show ?thesis
    by (intro exI [of _ "sections d"]) simp
qed

section \<open>The file name has no part in the layout\<close>

lemma rename_fields:
  "cur_y (rename p st) = cur_y st" "body_size (rename p st) = body_size st"
  "body_leading (rename p st) = body_leading st" "heading_size (rename p st) = heading_size st"
  "heading_leading (rename p st) = heading_leading st" "section_gap (rename p st) = section_gap st"
  "cur_overflow (rename p st) = cur_overflow st"
  "cur_canvas (rename p st) = (cur_canvas st)\<lparr>filename := p\<rparr>"
  by (simp_all add: rename_def)

lemma rename_update:
  "(rename p st)\<lparr>cur_canvas := c\<lparr>filename := p\<rparr>, cur_y := y\<rparr> =
   rename p (st\<lparr>cur_canvas := c, cur_y := y\<rparr>)"
  by (cases st) (simp add: rename_def)

lemma run_step_rename:
  assumes "(if b then draw_bullet sw c line x y0 width fn bs leading
            else draw_paragraph sw c line x y0 width fn bs leading) = (c', y')"
  shows "(if b then draw_bullet sw (c\<lparr>filename := p\<rparr>) line x y0 width fn bs leading
          else draw_paragraph sw (c\<lparr>filename := p\<rparr>) line x y0 width fn bs leading) =
         (c'\<lparr>filename := p\<rparr>, y')"
proof (cases b)
  case True
  with assms have "draw_bullet sw c line x y0 width fn bs leading = (c', y')" by simp
  then have "c' = c\<lparr>ops := ops c @ [SetFont fn bs, DrawString x y0 ''- ''] @
        line_ops (x + sw ''- '' fn bs) y0 leading
          (wrap_text sw line fn bs (width - sw ''- '' fn bs))\<rparr>"
    and "y' = cursor_after y0 leading (wrap_text sw line fn bs (width - sw ''- '' fn bs))"
    by (simp_all add: draw_bullet_eq)
  with True show ?thesis by (simp add: draw_bullet_eq)
next
  case False
  with assms have "draw_paragraph sw c line x y0 width fn bs leading = (c', y')" by simp
  then have "c' = c\<lparr>ops := ops c @ SetFont fn bs #
        line_ops x y0 leading (wrap_text sw line fn bs width)\<rparr>"
    and "y' = cursor_after y0 leading (wrap_text sw line fn bs width)"
    by (simp_all add: draw_paragraph_eq)
  with False show ?thesis by (simp add: draw_paragraph_eq)
qed

lemma draw_runs_rename:
  "draw_runs sw d b (rename p st) runs = rename p (draw_runs sw d b st runs)"
proof (induction runs arbitrary: st)
  case Nil
  show ?case by simp
next
  case (Cons line runs)
  obtain c' y' where step:
    "(if b then draw_bullet sw (cur_canvas st) line (margin d) (cur_y st) (content_width d)
          ''Helvetica'' (body_size st) (body_leading st)
      else draw_paragraph sw (cur_canvas st) line (margin d) (cur_y st) (content_width d)
          ''Helvetica'' (body_size st) (body_leading st)) = (c', y')"
    by (rule prod.exhaust)
  note step' = run_step_rename [OF step, of p]
  have "draw_runs sw d b (rename p st) (line # runs) =
      draw_runs sw d b ((rename p st)\<lparr>cur_canvas := c'\<lparr>filename := p\<rparr>, cur_y := y'\<rparr>) runs"
    by (simp only: draw_runs.simps rename_fields step' Let_def case_prod_conv)
  also have "\<dots> = draw_runs sw d b (rename p (st\<lparr>cur_canvas := c', cur_y := y'\<rparr>)) runs"
    by (simp only: rename_update)
  also have "\<dots> = rename p (draw_runs sw d b (st\<lparr>cur_canvas := c', cur_y := y'\<rparr>) runs)"
    by (rule Cons.IH)
  also have "draw_runs sw d b (st\<lparr>cur_canvas := c', cur_y := y'\<rparr>) runs =
      draw_runs sw d b st (line # runs)"
    by (simp only: draw_runs.simps step Let_def case_prod_conv)
  finally show ?case .
qed

lemma draw_section_rename:
  "draw_section sw d (rename p st) sec = rename p (draw_section sw d st sec)"
proof -
  obtain t runs b where sec: "sec = (t, runs, b)" by (cases sec)
  define st4 where "st4 = st\<lparr>cur_y := cur_y st - heading_leading st,
      cur_canvas := (cur_canvas st)\<lparr>ops := ops (cur_canvas st) @
        [SetFillColor ''#163B5A'', SetFont ''Helvetica-Bold'' (heading_size st),
         DrawString (margin d) (cur_y st) t, SetFillColor ''black'']\<rparr>\<rparr>"
  have a: "draw_section sw d st sec =
      (draw_runs sw d b st4 runs)\<lparr>cur_y := cur_y (draw_runs sw d b st4 runs) -
        section_gap (draw_runs sw d b st4 runs)\<rparr>"
    by (simp add: draw_section_def sec Let_def emit_def st4_def)
  have r4: "(rename p st)\<lparr>cur_y := cur_y (rename p st) - heading_leading (rename p st),
      cur_canvas := (cur_canvas (rename p st))\<lparr>ops := ops (cur_canvas (rename p st)) @
        [SetFillColor ''#163B5A'', SetFont ''Helvetica-Bold'' (heading_size (rename p st)),
         DrawString (margin d) (cur_y (rename p st)) t, SetFillColor ''black'']\<rparr>\<rparr> =
      rename p st4"
    by (cases st) (simp add: rename_def st4_def)
  have b: "draw_section sw d (rename p st) sec =
      (draw_runs sw d b (rename p st4) runs)\<lparr>cur_y := cur_y (draw_runs sw d b (rename p st4) runs) -
        section_gap (draw_runs sw d b (rename p st4) runs)\<rparr>"
    by (simp add: draw_section_def sec Let_def emit_def r4)
  show ?thesis
    by (simp only: a b draw_runs_rename) (simp add: rename_def)
qed

lemma layout_all_rename:
  "layout_all sw d (rename p st) secs = rename p (layout_all sw d st secs)"
  by (induction secs arbitrary: st) (simp_all add: draw_section_rename)

lemma section_loop_rename:
  "section_loop sw d (rename p st) secs = rename p (section_loop sw d st secs)"
proof (induction secs arbitrary: st)
  case Nil
  show ?case by simp
next
  case (Cons sec secs)
  show ?case
  proof (cases "cur_y (draw_section sw d st sec) < margin d + 8")
    case True
    then show ?thesis
      by (simp add: draw_section_rename rename_fields Let_def) (simp add: rename_def)
  next
    case False
    then show ?thesis
      by (simp add: draw_section_rename rename_fields Let_def Cons.IH)
  qed
qed

lemma draw_header_rename:
  "draw_header d p scale st = rename p (draw_header d p' scale st')"
  by (simp add: draw_header_eq rename_def)

lemma scale_attempt_rename:
  "scale_attempt sw d p prev scale = rename p (scale_attempt sw d p' prev' scale)"
proof -
  have "scale_attempt sw d p prev scale =
      section_loop sw d (rename p (draw_header d p' scale entry_locals)) (sections d)"
    by (simp only: scale_attempt_eq draw_header_rename [of d p scale entry_locals p' entry_locals])
  then show ?thesis
    by (simp only: section_loop_rename scale_attempt_eq)
qed

lemma scale_attempt_any_path:
  "cur_overflow (scale_attempt sw d p prev scale) =
     cur_overflow (scale_attempt sw d p' prev' scale)"
  "ops (cur_canvas (scale_attempt sw d p prev scale)) =
     ops (cur_canvas (scale_attempt sw d p' prev' scale))"
  "pagesize (cur_canvas (scale_attempt sw d p prev scale)) =
     pagesize (cur_canvas (scale_attempt sw d p' prev' scale))"
  "cur_y (scale_attempt sw d p prev scale) = cur_y (scale_attempt sw d p' prev' scale)"
  by (simp_all add: scale_attempt_rename [of sw d p prev scale p' prev'] rename_def)

section \<open>Claims on the passes of the driver\<close>

text \<open>
  C10, as amended. Within a pass the overflow test comes after a section has been
  laid out in full (cursor below \<open>margin + 8\<close>), and it ends the section loop: the
  sections after the first overflowing one are not laid out at that scale. When the
  pass of every candidate overflows, the layout left is the one of the last
  candidate: the complete layout of the sections \<open>pre\<close> up to and including the first
  overflowing one, with one section opened per section of \<open>pre\<close>. It lacks the later
  sections \<open>post\<close>; it is the complete layout of all sections exactly when the first
  overflowing section is the last one.
\<close>

theorem overflow_truncates_layout:
  assumes "scales \<noteq> []"
    and "\<forall>t \<in> set scales. cur_overflow (scale_attempt sw d path None t)"
  shows "\<exists>pre post. sections d = pre @ post \<and> pre \<noteq> [] \<and>
      snd (full_layout sw d path (last scales) pre) < margin d + 8 \<and>
      (\<forall>p. p \<noteq> [] \<and> strict_prefix p pre \<longrightarrow>
         \<not> snd (full_layout sw d path (last scales) p) < margin d + 8) \<and>
      snd (scale_loop sw d path prev fs scales) =
        fs(path \<mapsto> fst (full_layout sw d path (last scales) pre)) \<and>
      length (filter is_section_start (ops (fst (full_layout sw d path (last scales) pre)))) =
        length pre \<and>
      (post = [] \<longrightarrow> fst (full_layout sw d path (last scales) pre) =
         fst (full_layout sw d path (last scales) (sections d))) \<and>
      (post \<noteq> [] \<longrightarrow> length (ops (fst (full_layout sw d path (last scales) pre))) <
         length (ops (fst (full_layout sw d path (last scales) (sections d)))))"
proof -
  from assms(1) have "last scales \<in> set scales" by simp
  with assms(2) have over: "cur_overflow (scale_attempt sw d path None (last scales))" by blast
  from scale_attempt_truncated [OF over] obtain pre post where
    s: "sections d = pre @ post" and ne: "pre \<noteq> []"
    and o: "snd (full_layout sw d path (last scales) pre) < margin d + 8"
    and b: "\<forall>p. p \<noteq> [] \<and> strict_prefix p pre \<longrightarrow>
         \<not> snd (full_layout sw d path (last scales) p) < margin d + 8"
    and c: "cur_canvas (scale_attempt sw d path None (last scales)) =
        fst (full_layout sw d path (last scales) pre)"
    by blast
  have saved: "snd (scale_loop sw d path prev fs scales) =
      fs(path \<mapsto> fst (full_layout sw d path (last scales) pre))"
    using scale_loop_all_overflow [OF assms, of prev fs] c by simp
  have count: "length (filter is_section_start
      (ops (fst (full_layout sw d path (last scales) pre)))) = length pre"
    by (rule full_layout_section_starts)
  have whole: "post = [] \<longrightarrow> fst (full_layout sw d path (last scales) pre) =
      fst (full_layout sw d path (last scales) (sections d))"
    using s by simp
  have part: "post \<noteq> [] \<longrightarrow> length (ops (fst (full_layout sw d path (last scales) pre))) <
      length (ops (fst (full_layout sw d path (last scales) (sections d))))"
    using full_layout_grows [of post sw d path "last scales" pre] s by simp
  from s ne o b saved count whole part show ?thesis by blast
qed

theorem overflow_truncates_layout_witness:
  "[1.1, 1] \<noteq> ([]::real list) \<and>
   cur_overflow (scale_attempt mono_width doc_three ''out.pdf'' None 1.1) \<and>
   cur_overflow (scale_attempt mono_width doc_three ''out.pdf'' None 1) \<and>
   (\<exists>pre post. sections doc_three = pre @ post \<and> pre \<noteq> [] \<and>
      snd (scale_loop mono_width doc_three ''out.pdf'' None Map.empty [1.1, 1]) =
        [''out.pdf'' \<mapsto> fst (full_layout mono_width doc_three ''out.pdf'' 1 pre)] \<and>
      length (filter is_section_start
        (ops (fst (full_layout mono_width doc_three ''out.pdf'' 1 pre)))) = length pre) \<and>
   snd (scale_loop mono_width doc_three ''out.pdf'' None Map.empty [1.1, 1]) ''out.pdf'' =
     Some \<lparr>filename = ''out.pdf'', pagesize = (100, 140),
       ops =
         [SetTitle ''Tidum App Summary'', SetFillColor ''#132031'',
          SetFont ''Helvetica-Bold'' 24, DrawString 10 130 ''T'',
          SetStrokeColor ''#D8DEE9'', SetLineWidth 1, Line 10 106 90 106,
          SetFillColor ''#163B5A'', SetFont ''Helvetica-Bold'' 13.5,
          DrawString 10 93 ''A'', SetFillColor ''black'',
          SetFont ''Helvetica'' 11, DrawString 10 76 ''x'',
          SetFillColor ''#163B5A'', SetFont ''Helvetica-Bold'' 13.5,
          DrawString 10 54.4 ''B'', SetFillColor ''black'',
          SetFont ''Helvetica'' 11, DrawString 10 37.4 ''- '',
          DrawString 32 37.4 ''y'']\<rparr>"
proof -
  have ne: "[1.1, 1] \<noteq> ([]::real list)" by simp
  have o1: "cur_overflow (scale_attempt mono_width doc_three ''out.pdf'' None 1.1)"
    by (simp add: run_defs doc_three_def)
  have o2: "cur_overflow (scale_attempt mono_width doc_three ''out.pdf'' None 1)"
    by (simp add: run_defs doc_three_def)
  from o1 o2
  have all: "\<forall>t \<in> set [1.1, 1]. cur_overflow (scale_attempt mono_width doc_three ''out.pdf'' None t)"
    by simp
  from overflow_truncates_layout [OF ne all, of None Map.empty]
  have ex: "\<exists>pre post. sections doc_three = pre @ post \<and> pre \<noteq> [] \<and>
      snd (scale_loop mono_width doc_three ''out.pdf'' None Map.empty [1.1, 1]) =
        [''out.pdf'' \<mapsto> fst (full_layout mono_width doc_three ''out.pdf'' 1 pre)] \<and>
      length (filter is_section_start
        (ops (fst (full_layout mono_width doc_three ''out.pdf'' 1 pre)))) = length pre"
    by (simp only: last.simps list.simps if_False if_True simp_thms) blast
  have c: "cur_canvas (scale_attempt mono_width doc_three ''out.pdf'' None 1) =
     \<lparr>filename = ''out.pdf'', pagesize = (100, 140),
       ops =
         [SetTitle ''Tidum App Summary'', SetFillColor ''#132031'',
          SetFont ''Helvetica-Bold'' 24, DrawString 10 130 ''T'',
          SetStrokeColor ''#D8DEE9'', SetLineWidth 1, Line 10 106 90 106,
          SetFillColor ''#163B5A'', SetFont ''Helvetica-Bold'' 13.5,
          DrawString 10 93 ''A'', SetFillColor ''black'',
          SetFont ''Helvetica'' 11, DrawString 10 76 ''x'',
          SetFillColor ''#163B5A'', SetFont ''Helvetica-Bold'' 13.5,
          DrawString 10 54.4 ''B'', SetFillColor ''black'',
          SetFont ''Helvetica'' 11, DrawString 10 37.4 ''- '',
          DrawString 32 37.4 ''y'']\<rparr>"
    by (simp add: run_defs doc_three_def)
  have "snd (scale_loop mono_width doc_three ''out.pdf'' None Map.empty [1.1, 1]) ''out.pdf'' =
      Some (cur_canvas (scale_attempt mono_width doc_three ''out.pdf'' None 1))"
    using scale_loop_all_overflow [OF ne all, of None Map.empty] by simp
  with c have saved:
    "snd (scale_loop mono_width doc_three ''out.pdf'' None Map.empty [1.1, 1]) ''out.pdf'' =
     Some \<lparr>filename = ''out.pdf'', pagesize = (100, 140),
       ops =
         [SetTitle ''Tidum App Summary'', SetFillColor ''#132031'',
          SetFont ''Helvetica-Bold'' 24, DrawString 10 130 ''T'',
          SetStrokeColor ''#D8DEE9'', SetLineWidth 1, Line 10 106 90 106,
          SetFillColor ''#163B5A'', SetFont ''Helvetica-Bold'' 13.5,
          DrawString 10 93 ''A'', SetFillColor ''black'',
          SetFont ''Helvetica'' 11, DrawString 10 76 ''x'',
          SetFillColor ''#163B5A'', SetFont ''Helvetica-Bold'' 13.5,
          DrawString 10 54.4 ''B'', SetFillColor ''black'',
          SetFont ''Helvetica'' 11, DrawString 10 37.4 ''- '',
          DrawString 32 37.4 ''y'']\<rparr>"
    by (simp only:)
  from ne o1 o2 ex saved show ?thesis by (intro conjI)
qed

text \<open>
  C10 as stated fails when the first overflowing section is the last one: on
  \<open>doc_small\<close> with the single candidate 1 the pass overflows, and the layout left is
  the complete layout of all sections.
\<close>

theorem overflow_truncates_layout_counterexample:
  "cur_overflow (scale_attempt mono_width doc_small ''out.pdf'' None 1) \<and>
   snd (scale_loop mono_width doc_small ''out.pdf'' None Map.empty [1]) ''out.pdf'' =
     Some (fst (full_layout mono_width doc_small ''out.pdf'' 1 (sections doc_small)))"
  by (simp add: run_defs doc_small_def save_def)

end
